theory Spec2Isabelle
  imports Main "HOL-Library.Multiset"
begin

section \<open>The data model of iheap.h\<close>

text \<open>
  An entry is a \<open>std::pair\<close> of a priority and a key. The caller owns the storage; the
  algorithms see it through the iterator \<open>begin\<close>, so the sequence is the list of the
  entries stored from \<open>begin\<close> on, slot \<open>i\<close> being \<open>begin[i]\<close>. A range \<open>[begin, end)\<close> is
  given by the integer \<open>n = end - begin\<close>, which is negative for an inverted range. The
  indexer returns a mutable reference to the cell of a key; it is the total function
  from keys to the contents of their cells, \<open>-1\<close> being the value for an absent key.
  The comparator takes two entries (the default is \<open>std::less\<close> on the pairs);
  the parameter \<open>comp\<close> is written \<open>cmp\<close>, and \<open>cmp a b\<close> says that \<open>b\<close> dominates \<open>a\<close>.

  Slots are \<open>int\<close> in the source, 32 bits wide. Inside the loops they are never
  negative, so the loops are written over \<open>nat\<close>, and the bound of \<open>int\<close> is written out
  wherever the source computes a new slot: \<open>detail::bubble_down\<close> computes \<open>2 * i + 1\<close>,
  \<open>2 * i + 2\<close> and \<open>++c\<close>, and a signed overflow there is undefined behaviour; the call
  then has a fault for its result and no state. \<open>detail::bubble_up\<close> computes only
  \<open>(i - 1) / 2\<close> of a positive slot, which cannot overflow. A range is taken to have at
  most \<open>INT_MAX\<close> slots, so that \<open>end - begin\<close> and \<open>it - begin\<close> are the values of the
  \<open>int\<close> variables they are stored in.

  An access outside the storage is undefined behaviour as well. The slot that \<open>update\<close>
  and \<open>pop_key\<close> read from the index map is data, and \<open>begin + index\<close> is dereferenced
  as it is: when it lies outside the storage the call has a fault for its result. The
  range comes from the caller; for a slot past the storage \<open>xs ! i\<close> is some unspecified
  entry and \<open>xs[i := e]\<close> is \<open>xs\<close>, and the theorems about the entries of a range assume
  that the range lies inside the storage, \<open>n \<le> length xs\<close>.
\<close>

type_synonym ('p, 'k) entry = "'p \<times> 'k"

type_synonym ('p, 'k) iheap = "('p, 'k) entry list \<times> ('k \<Rightarrow> int)"

type_synonym ('p, 'k) compare = "('p, 'k) entry \<Rightarrow> ('p, 'k) entry \<Rightarrow> bool"

text \<open>The two ways in which a call leaves defined behaviour: an \<open>int\<close> expression whose
  value does not fit an \<open>int\<close>, and the dereference of an iterator outside the storage.\<close>

datatype fault = IntOverflow | OutOfStorage

text \<open>\<open>INT_MAX\<close>, the largest value of an \<open>int\<close>: \<open>2^31 - 1\<close>.\<close>

definition int_max :: nat where
  "int_max = 2147483647"

text \<open>\<open>swap(indexer(a), indexer(b))\<close>: the two cells exchange their contents (one cell
  when the keys are equal).\<close>

definition swap_cells :: "('k \<Rightarrow> int) \<Rightarrow> 'k \<Rightarrow> 'k \<Rightarrow> ('k \<Rightarrow> int)" where
  "swap_cells idx a b = idx(a := idx b, b := idx a)"

text \<open>\<open>swap(begin[i], begin[j]); swap(indexer(begin[i].second), indexer(begin[j].second));\<close>
  the keys are read after the entries have been exchanged.\<close>

definition swap_entries :: "nat \<Rightarrow> nat \<Rightarrow> ('p, 'k) iheap \<Rightarrow> ('p, 'k) iheap" where
  "swap_entries i j s =
     (case s of (xs, idx) \<Rightarrow>
        let xs' = xs[i := xs ! j, j := xs ! i]
        in (xs', swap_cells idx (snd (xs' ! i)) (snd (xs' ! j))))"

section \<open>The rebalance primitives\<close>

text \<open>The loop of \<open>detail::bubble_up\<close> (lines 46 to 51).\<close>

function bubble_up_loop :: "('p, 'k) compare \<Rightarrow> nat \<Rightarrow> ('p, 'k) iheap \<Rightarrow> ('p, 'k) iheap" where
  "bubble_up_loop cmp i s =
     (if 0 < i \<and> cmp (fst s ! ((i - 1) div 2)) (fst s ! i)
      then bubble_up_loop cmp ((i - 1) div 2) (swap_entries ((i - 1) div 2) i s)
      else s)"
  by pat_completeness auto
termination
  by (relation "measure (\<lambda>(cmp, i, s). i)") auto

definition bubble_up :: "('p, 'k) compare \<Rightarrow> int \<Rightarrow> int \<Rightarrow> ('p, 'k) iheap \<Rightarrow> ('p, 'k) iheap" where
  "bubble_up cmp n it s =
     (if it < 0 \<or> it \<ge> n then s else bubble_up_loop cmp (nat it) s)"

text \<open>The inner \<open>for\<close> loop of \<open>detail::bubble_down\<close> (lines 71 to 73): \<open>c\<close> runs over the
  children of \<open>i\<close> that lie in the range, \<open>m\<close> is the most dominant slot seen so far. The
  condition is \<open>(c < n) && (c <= 2 * i + 2)\<close>: the product and the sum are computed
  only when \<open>c < n\<close> holds, and overflow when \<open>2 * i + 2\<close> exceeds \<open>INT_MAX\<close>; \<open>++c\<close>
  overflows at \<open>INT_MAX\<close>.\<close>

function child_scan ::
  "('p, 'k) compare \<Rightarrow> nat \<Rightarrow> nat \<Rightarrow> ('p, 'k) entry list \<Rightarrow> nat \<Rightarrow> nat \<Rightarrow> fault + nat" where
  "child_scan cmp n i xs c m =
     (if c < n
      then (if int_max < 2 * i + 2 then Inl IntOverflow
            else if c \<le> 2 * i + 2
              then (if int_max < c + 1 then Inl IntOverflow
                    else child_scan cmp n i xs (c + 1) (if cmp (xs ! m) (xs ! c) then c else m))
              else Inr m)
      else Inr m)"
  by pat_completeness auto
termination
  by (relation "measure (\<lambda>(cmp, n, i, xs, c, m). 2 * i + 3 - c)") auto

text \<open>The outer loop of \<open>detail::bubble_down\<close> (lines 68 to 80). The scan starts at
  \<open>int c = 2 * i + 1\<close>, which overflows when \<open>2 * i + 1\<close> exceeds \<open>INT_MAX\<close>, that is,
  from slot \<open>2^30\<close> on.\<close>

function bubble_down_loop ::
  "('p, 'k) compare \<Rightarrow> nat \<Rightarrow> nat \<Rightarrow> ('p, 'k) iheap \<Rightarrow> fault + ('p, 'k) iheap" where
  "bubble_down_loop cmp n i s =
     (if i < n
      then (if int_max < 2 * i + 1 then Inl IntOverflow
            else case child_scan cmp n i (fst s) (2 * i + 1) i of
                   Inl f \<Rightarrow> Inl f
                 | Inr m \<Rightarrow> if m = i then Inr s
                            else bubble_down_loop cmp n m (swap_entries i m s))
      else Inr s)"
  by pat_completeness auto
termination bubble_down_loop
proof (relation "measure (\<lambda>(cmp, n, i, s). n - i)")
  show "wf (measure (\<lambda>(cmp :: ('a, 'b) compare, n :: nat, i :: nat, s :: ('a, 'b) iheap). n - i))"
    by simp
next
  fix cmp :: "('a, 'b) compare" and n i :: nat and s :: "('a, 'b) iheap" and m :: nat
  assume "i < n" and m: "child_scan cmp n i (fst s) (2 * i + 1) i = Inr m" and "m \<noteq> i"
  have "m = i \<or> (m = 2 * i + 1 \<and> 2 * i + 1 < n) \<or> (m = 2 * i + 2 \<and> 2 * i + 2 < n)"
    using m
    by (subst (asm) child_scan.simps, subst (asm) child_scan.simps, subst (asm) child_scan.simps)
      (simp split: if_splits)
  with \<open>m \<noteq> i\<close> have "i < m \<and> m < n" by auto
  then show "((cmp, n, m, swap_entries i m s), (cmp, n, i, s))
               \<in> measure (\<lambda>(cmp, n, i, s). n - i)"
    by (simp, arith)
qed

text \<open>\<open>detail::bubble_down\<close> (lines 55 to 81), with its guard on the iterator \<open>it\<close>.\<close>

definition bubble_down ::
  "('p, 'k) compare \<Rightarrow> int \<Rightarrow> int \<Rightarrow> ('p, 'k) iheap \<Rightarrow> fault + ('p, 'k) iheap" where
  "bubble_down cmp n it s =
     (if it < 0 \<or> it \<ge> n then Inr s else bubble_down_loop cmp (nat n) (nat it) s)"

section \<open>The public operations\<close>

text \<open>\<open>push\<close> (lines 88 to 94). The entry at \<open>end - 1\<close> is read, never written: the caller
  has stored it there.\<close>

definition push :: "('p, 'k) compare \<Rightarrow> int \<Rightarrow> ('p, 'k) iheap \<Rightarrow> ('p, 'k) iheap" where
  "push cmp n s =
     (if n \<le> 0 then s
      else case s of (xs, idx) \<Rightarrow>
        bubble_up cmp n (n - 1) (xs, idx(snd (xs ! nat (n - 1)) := n - 1)))"

text \<open>\<open>pop\<close> (lines 98 to 112); \<open>bk\<close> is the slot of the iterator \<open>back\<close>.\<close>

definition pop :: "('p, 'k) compare \<Rightarrow> int \<Rightarrow> ('p, 'k) iheap \<Rightarrow> fault + ('p, 'k) iheap" where
  "pop cmp n s =
     (if n \<le> 0 then Inr s
      else let bk = n - 1 in
        case swap_entries 0 (nat bk) s of (xs, idx) \<Rightarrow>
          bubble_down cmp bk 0 (xs, idx(snd (xs ! nat bk) := - 1)))"

text \<open>\<open>make\<close> (lines 116 to 123): the loop runs \<open>it\<close> from \<open>end - 1\<close> down to \<open>begin\<close>.\<close>

function make_loop ::
  "('p, 'k) compare \<Rightarrow> int \<Rightarrow> int \<Rightarrow> ('p, 'k) iheap \<Rightarrow> fault + ('p, 'k) iheap" where
  "make_loop cmp n it s =
     (if it \<ge> 0
      then (case bubble_down cmp n it s of
              Inl f \<Rightarrow> Inl f
            | Inr s' \<Rightarrow> make_loop cmp n (it - 1) s')
      else Inr s)"
  by pat_completeness auto
termination
  by (relation "measure (\<lambda>(cmp, n, it, s). nat (it + 1))") auto

definition make :: "('p, 'k) compare \<Rightarrow> int \<Rightarrow> ('p, 'k) iheap \<Rightarrow> fault + ('p, 'k) iheap" where
  "make cmp n s = (if n \<le> 0 then Inr s else make_loop cmp n (n - 1) s)"

text \<open>\<open>sort\<close> (lines 127 to 131): \<open>while (begin < end) pop(begin, end--, indexer, comp)\<close>.\<close>

function sort_heap ::
  "('p, 'k) compare \<Rightarrow> int \<Rightarrow> ('p, 'k) iheap \<Rightarrow> fault + ('p, 'k) iheap" where
  "sort_heap cmp n s =
     (if 0 < n
      then (case pop cmp n s of Inl f \<Rightarrow> Inl f | Inr s' \<Rightarrow> sort_heap cmp (n - 1) s')
      else Inr s)"
  by pat_completeness auto
termination
  by (relation "measure (\<lambda>(cmp, n, s). nat n)") auto

text \<open>\<open>update\<close> (lines 135 to 157); the result is the returned flag and the state.
  \<open>*it\<close> with \<open>it = begin + index\<close> is read and written whatever \<open>index\<close> is.\<close>

definition update ::
  "('p, 'k) compare \<Rightarrow> int \<Rightarrow> 'k \<Rightarrow> 'p \<Rightarrow> ('p, 'k) iheap \<Rightarrow> fault + bool \<times> ('p, 'k) iheap" where
  "update cmp n key v s =
     (if n \<le> 0 then Inr (False, s)
      else case s of (xs, idx) \<Rightarrow>
        let index = idx key in
        if index = - 1 then Inr (False, s)
        else if index < 0 \<or> int (length xs) \<le> index then Inl OutOfStorage
        else
          let old = xs ! nat index;
              xs' = xs[nat index := (v, snd old)]
          in if cmp (xs' ! nat index) old
               then (case bubble_down cmp n index (xs', idx) of
                       Inl f \<Rightarrow> Inl f
                     | Inr s' \<Rightarrow> Inr (True, s'))
             else if cmp old (xs' ! nat index)
               then Inr (True, bubble_up cmp n index (xs', idx))
             else Inr (True, (xs', idx)))"

text \<open>\<open>pop_key\<close> (lines 161 to 190).\<close>

definition pop_key ::
  "('p, 'k) compare \<Rightarrow> int \<Rightarrow> 'k \<Rightarrow> ('p, 'k) iheap \<Rightarrow> fault + bool \<times> ('p, 'k) iheap" where
  "pop_key cmp n key s =
     (if n \<le> 0 then Inr (False, s)
      else case s of (xs, idx) \<Rightarrow>
        let index = idx key in
        if index = - 1 then Inr (False, s)
        else if index < 0 \<or> int (length xs) \<le> index then Inl OutOfStorage
        else
          let bk = n - 1;
              old = xs ! nat index
          in case swap_entries (nat index) (nat bk) s of (xs', idx') \<Rightarrow>
               let idx'' = idx'(snd (xs' ! nat bk) := - 1)
               in if cmp (xs' ! nat index) old
                    then (case bubble_down cmp bk index (xs', idx'') of
                            Inl f \<Rightarrow> Inl f
                          | Inr s' \<Rightarrow> Inr (True, s'))
                  else if cmp old (xs' ! nat index)
                    then Inr (True, bubble_up cmp bk index (xs', idx''))
                  else Inr (True, (xs', idx'')))"

section \<open>The invariants\<close>

text \<open>The comparator is a strict weak order, as \<open>std::less\<close> on the pairs is: irreflexive,
  transitive, and with a transitive \<open>not dominated by\<close>.\<close>

definition strict_weak_order :: "('p, 'k) compare \<Rightarrow> bool" where
  "strict_weak_order cmp =
     ((\<forall>a. \<not> cmp a a) \<and>
      (\<forall>a b c. cmp a b \<and> cmp b c \<longrightarrow> cmp a c) \<and>
      (\<forall>a b c. \<not> cmp a b \<and> \<not> cmp b c \<longrightarrow> \<not> cmp a c))"

text \<open>Irreflexivity alone, the part of the order that the idempotence of \<open>update\<close> needs.\<close>

definition irreflexive :: "('p, 'k) compare \<Rightarrow> bool" where
  "irreflexive cmp = (\<forall>a. \<not> cmp a a)"

text \<open>The heap property over the slots \<open>[0, n)\<close>: no slot's parent is dominated by it.\<close>

definition heap_property :: "('p, 'k) compare \<Rightarrow> nat \<Rightarrow> ('p, 'k) entry list \<Rightarrow> bool" where
  "heap_property cmp n xs =
     (\<forall>i. 0 < i \<and> i < n \<longrightarrow> \<not> cmp (xs ! ((i - 1) div 2)) (xs ! i))"

text \<open>Index consistency over the slots \<open>[0, n)\<close>: the cell of the key of slot \<open>i\<close> holds
  \<open>i\<close>, and the cell of a key that no slot holds is \<open>-1\<close>.\<close>

definition index_consistent :: "nat \<Rightarrow> ('p, 'k) iheap \<Rightarrow> bool" where
  "index_consistent n s =
     ((\<forall>i. i < n \<longrightarrow> snd s (snd (fst s ! i)) = int i) \<and>
      (\<forall>k. (\<forall>i. i < n \<longrightarrow> snd (fst s ! i) \<noteq> k) \<longrightarrow> snd s k = - 1))"

subsection \<open>Invariants of the proofs\<close>

text \<open>The heap property restricted to the slots whose parent is at least \<open>l\<close>.\<close>

definition heap_from :: "('p, 'k) compare \<Rightarrow> nat \<Rightarrow> nat \<Rightarrow> ('p, 'k) entry list \<Rightarrow> bool" where
  "heap_from cmp n l xs =
     (\<forall>j. 0 < j \<and> j < n \<and> l \<le> (j - 1) div 2 \<longrightarrow> \<not> cmp (xs ! ((j - 1) div 2)) (xs ! j))"

text \<open>What an operation over \<open>[0, n)\<close> leaves alone: the length of the storage, the
  multiset of the entries in the range, and every slot past the range.\<close>

definition same_entries :: "nat \<Rightarrow> ('p, 'k) entry list \<Rightarrow> ('p, 'k) entry list \<Rightarrow> bool" where
  "same_entries n xs xs' =
     (length xs' = length xs \<and> mset (take n xs') = mset (take n xs) \<and>
      (\<forall>j. n \<le> j \<longrightarrow> xs' ! j = xs ! j))"

text \<open>The heap property with slot \<open>i\<close> possibly dominating its ancestors.\<close>

definition up_inv :: "('p, 'k) compare \<Rightarrow> nat \<Rightarrow> nat \<Rightarrow> ('p, 'k) entry list \<Rightarrow> bool" where
  "up_inv cmp n i xs =
     ((\<forall>j. 0 < j \<and> j < n \<and> j \<noteq> i \<longrightarrow> \<not> cmp (xs ! ((j - 1) div 2)) (xs ! j)) \<and>
      (\<forall>j. 0 < j \<and> j < n \<and> (j - 1) div 2 = i \<and> 0 < i \<longrightarrow>
           \<not> cmp (xs ! ((i - 1) div 2)) (xs ! j)))"

text \<open>The heap property from \<open>l\<close> on, with slot \<open>i\<close> possibly dominated by its descendants.\<close>

definition down_inv :: "('p, 'k) compare \<Rightarrow> nat \<Rightarrow> nat \<Rightarrow> nat \<Rightarrow> ('p, 'k) entry list \<Rightarrow> bool" where
  "down_inv cmp n l i xs =
     ((\<forall>j. 0 < j \<and> j < n \<and> l \<le> (j - 1) div 2 \<and> (j - 1) div 2 \<noteq> i \<longrightarrow>
           \<not> cmp (xs ! ((j - 1) div 2)) (xs ! j)) \<and>
      (\<forall>j. 0 < j \<and> j < n \<and> (j - 1) div 2 = i \<and> 0 < i \<and> l \<le> (i - 1) div 2 \<longrightarrow>
           \<not> cmp (xs ! ((i - 1) div 2)) (xs ! j)))"

subsection \<open>The description of make in the specification\<close>

text \<open>The description of \<open>make\<close> in the specification: the internal slots are those with
  a child in the range; they are sifted toward the leaves in decreasing order, the root
  last. The sift is \<open>detail::bubble_down\<close>; after a fault nothing more is run.\<close>

definition internal_slots :: "int \<Rightarrow> nat list" where
  "internal_slots n = filter (\<lambda>i. 2 * int i + 1 < n) [0..<nat n]"

definition make_spec ::
  "('p, 'k) compare \<Rightarrow> int \<Rightarrow> ('p, 'k) iheap \<Rightarrow> fault + ('p, 'k) iheap" where
  "make_spec cmp n s =
     (if n \<le> 0 then Inr s
      else fold (\<lambda>i r. case r of Inl f \<Rightarrow> Inl f | Inr s' \<Rightarrow> bubble_down cmp n (int i) s')
             (rev (internal_slots n)) (Inr s))"

section \<open>The operations over unbounded slots\<close>

text \<open>The sift toward the leaves and the operations that run it once more, with slots
  that are natural numbers without a bound and with no check of the slot read from the
  index map. These functions are not the model of the source. They say what the
  operations compute as long as no \<open>int\<close> overflows and no access leaves the storage:
  the facts about the invariants are proved of them first, and they are carried over
  to the operations of the source on the ranges where the two agree, those of at most
  \<open>2^30\<close> slots.\<close>

function child_scan_unbounded :: "('p, 'k) compare \<Rightarrow> nat \<Rightarrow> nat \<Rightarrow> ('p, 'k) entry list \<Rightarrow> nat \<Rightarrow> nat \<Rightarrow> nat" where
  "child_scan_unbounded cmp n i xs c m =
     (if c < n \<and> c \<le> 2 * i + 2
      then child_scan_unbounded cmp n i xs (c + 1) (if cmp (xs ! m) (xs ! c) then c else m)
      else m)"
  by pat_completeness auto
termination
  by (relation "measure (\<lambda>(cmp, n, i, xs, c, m). 2 * i + 3 - c)") auto

function bubble_down_loop_unbounded :: "('p, 'k) compare \<Rightarrow> nat \<Rightarrow> nat \<Rightarrow> ('p, 'k) iheap \<Rightarrow> ('p, 'k) iheap" where
  "bubble_down_loop_unbounded cmp n i s =
     (if i < n
      then (let m = child_scan_unbounded cmp n i (fst s) (2 * i + 1) i
            in if m = i then s else bubble_down_loop_unbounded cmp n m (swap_entries i m s))
      else s)"
  by pat_completeness auto
termination bubble_down_loop_unbounded
proof (relation "measure (\<lambda>(cmp, n, i, s). n - i)")
  show "wf (measure (\<lambda>(cmp :: ('a, 'b) compare, n :: nat, i :: nat, s :: ('a, 'b) iheap). n - i))"
    by simp
next
  fix cmp :: "('a, 'b) compare" and n i :: nat and s :: "('a, 'b) iheap" and m :: nat
  assume "i < n" and m: "m = child_scan_unbounded cmp n i (fst s) (2 * i + 1) i" and "m \<noteq> i"
  have "m = i \<or> (m = 2 * i + 1 \<and> 2 * i + 1 < n) \<or> (m = 2 * i + 2 \<and> 2 * i + 2 < n)"
    unfolding m
    by (subst child_scan_unbounded.simps, subst child_scan_unbounded.simps, subst child_scan_unbounded.simps) simp
  with \<open>m \<noteq> i\<close> have "i < m \<and> m < n" by auto
  then show "((cmp, n, m, swap_entries i m s), (cmp, n, i, s))
               \<in> measure (\<lambda>(cmp, n, i, s). n - i)"
    by (simp, arith)
qed

definition bubble_down_unbounded :: "('p, 'k) compare \<Rightarrow> int \<Rightarrow> int \<Rightarrow> ('p, 'k) iheap \<Rightarrow> ('p, 'k) iheap" where
  "bubble_down_unbounded cmp n it s =
     (if it < 0 \<or> it \<ge> n then s else bubble_down_loop_unbounded cmp (nat n) (nat it) s)"

definition pop_unbounded :: "('p, 'k) compare \<Rightarrow> int \<Rightarrow> ('p, 'k) iheap \<Rightarrow> ('p, 'k) iheap" where
  "pop_unbounded cmp n s =
     (if n \<le> 0 then s
      else let bk = n - 1 in
        case swap_entries 0 (nat bk) s of (xs, idx) \<Rightarrow>
          bubble_down_unbounded cmp bk 0 (xs, idx(snd (xs ! nat bk) := - 1)))"

function make_loop_unbounded :: "('p, 'k) compare \<Rightarrow> int \<Rightarrow> int \<Rightarrow> ('p, 'k) iheap \<Rightarrow> ('p, 'k) iheap" where
  "make_loop_unbounded cmp n it s =
     (if it \<ge> 0 then make_loop_unbounded cmp n (it - 1) (bubble_down_unbounded cmp n it s) else s)"
  by pat_completeness auto
termination
  by (relation "measure (\<lambda>(cmp, n, it, s). nat (it + 1))") auto

definition make_unbounded :: "('p, 'k) compare \<Rightarrow> int \<Rightarrow> ('p, 'k) iheap \<Rightarrow> ('p, 'k) iheap" where
  "make_unbounded cmp n s = (if n \<le> 0 then s else make_loop_unbounded cmp n (n - 1) s)"

function sort_heap_unbounded :: "('p, 'k) compare \<Rightarrow> int \<Rightarrow> ('p, 'k) iheap \<Rightarrow> ('p, 'k) iheap" where
  "sort_heap_unbounded cmp n s = (if 0 < n then sort_heap_unbounded cmp (n - 1) (pop_unbounded cmp n s) else s)"
  by pat_completeness auto
termination
  by (relation "measure (\<lambda>(cmp, n, s). nat n)") auto

definition update_unbounded :: "('p, 'k) compare \<Rightarrow> int \<Rightarrow> 'k \<Rightarrow> 'p \<Rightarrow> ('p, 'k) iheap \<Rightarrow> bool \<times> ('p, 'k) iheap" where
  "update_unbounded cmp n key v s =
     (if n \<le> 0 then (False, s)
      else case s of (xs, idx) \<Rightarrow>
        let index = idx key in
        if index = - 1 then (False, s)
        else
          let old = xs ! nat index;
              xs' = xs[nat index := (v, snd old)]
          in if cmp (xs' ! nat index) old
               then (True, bubble_down_unbounded cmp n index (xs', idx))
             else if cmp old (xs' ! nat index)
               then (True, bubble_up cmp n index (xs', idx))
             else (True, (xs', idx)))"

definition pop_key_unbounded :: "('p, 'k) compare \<Rightarrow> int \<Rightarrow> 'k \<Rightarrow> ('p, 'k) iheap \<Rightarrow> bool \<times> ('p, 'k) iheap" where
  "pop_key_unbounded cmp n key s =
     (if n \<le> 0 then (False, s)
      else case s of (xs, idx) \<Rightarrow>
        let index = idx key in
        if index = - 1 then (False, s)
        else
          let bk = n - 1;
              old = xs ! nat index
          in case swap_entries (nat index) (nat bk) s of (xs', idx') \<Rightarrow>
               let idx'' = idx'(snd (xs' ! nat bk) := - 1)
               in if cmp (xs' ! nat index) old
                    then (True, bubble_down_unbounded cmp bk index (xs', idx''))
                  else if cmp old (xs' ! nat index)
                    then (True, bubble_up cmp bk index (xs', idx''))
                  else (True, (xs', idx'')))"

text \<open>The description of \<open>make\<close> in the specification, over unbounded slots.\<close>

definition make_spec_unbounded :: "('p, 'k) compare \<Rightarrow> int \<Rightarrow> ('p, 'k) iheap \<Rightarrow> ('p, 'k) iheap" where
  "make_spec_unbounded cmp n s =
     (if n \<le> 0 then s else fold (\<lambda>i. bubble_down_unbounded cmp n (int i)) (rev (internal_slots n)) s)"

text \<open>\<open>2^30\<close>: in a range of at most so many slots, \<open>2 * i + 1\<close> fits an \<open>int\<close> for every
  slot \<open>i\<close> of the range.\<close>

definition exact_slots :: nat where
  "exact_slots = 1073741824"

section \<open>A concrete comparator and concrete states\<close>

text \<open>The default comparator, \<open>std::less\<close> on \<open>std::pair\<close>: the lexicographic order
  \<open>a.first < b.first || (!(b.first < a.first) && a.second < b.second)\<close>.\<close>

definition std_less :: "('p::linorder, 'k::linorder) compare" where
  "std_less a b = (fst a < fst b \<or> (\<not> fst b < fst a \<and> snd a < snd b))"

text \<open>The heap of the first scenario of the specification, with the keys
  \<open>a, b, c, d\<close> written \<open>0, 1, 2, 3\<close>.\<close>

definition ex_xs :: "(nat, nat) entry list" where
  "ex_xs = [(8, 2), (3, 1), (5, 0), (1, 3)]"

definition ex_idx :: "nat \<Rightarrow> int" where
  "ex_idx = (\<lambda>k. - 1)(2 := 0, 1 := 1, 0 := 2, 3 := 3)"

text \<open>The same storage before the entry of key \<open>3\<close> is pushed.\<close>

definition ex_idx3 :: "nat \<Rightarrow> int" where
  "ex_idx3 = (\<lambda>k. - 1)(2 := 0, 1 := 1, 0 := 2)"

text \<open>The unordered input of the fifth scenario of the specification, priorities
  \<open>1, 9, 3, 7, 2\<close> with the keys \<open>0\<close> to \<open>4\<close>.\<close>

definition ex_unordered :: "(nat, nat) entry list" where
  "ex_unordered = [(1, 0), (9, 1), (3, 2), (7, 3), (2, 4)]"

definition ex_unordered_idx :: "nat \<Rightarrow> int" where
  "ex_unordered_idx = (\<lambda>k. - 1)(0 := 0, 1 := 1, 2 := 2, 3 := 3, 4 := 4)"

text \<open>A heap of one entry, with a second entry stored behind it and a third slot of
  spare capacity.\<close>

definition ex_push_xs :: "(nat, nat) entry list" where
  "ex_push_xs = [(5, 0), (3, 1), (9, 9)]"

definition ex_push_idx :: "nat \<Rightarrow> int" where
  "ex_push_idx = (\<lambda>k. - 1)(0 := 0)"

text \<open>An index map that is not consistent with that heap: the cell of key \<open>0\<close> is stale.\<close>

definition ex_push_stale_idx :: "nat \<Rightarrow> int" where
  "ex_push_stale_idx = (\<lambda>k. - 1)(0 := 7)"

text \<open>A heap of \<open>2^30 + 2\<close> entries, which as pairs of \<open>int\<close> take \<open>8\<close> GiB. Slot \<open>i\<close> holds the key
  \<open>i\<close>. The priorities decrease with the slot, from \<open>2^30 + 2\<close> at the root to \<open>1\<close> at the
  last slot, except that the two children of slot \<open>2^29 - 1\<close>, the leaves \<open>2^30 - 1\<close> and
  \<open>2^30\<close>, have theirs exchanged: of the two, the right one, slot \<open>2^30\<close>, is the more
  dominant.\<close>

definition big_n :: nat where
  "big_n = 1073741826"

definition big_prio :: "nat \<Rightarrow> nat" where
  "big_prio i = (if i = 1073741823 then 2 else if i = 1073741824 then 3 else big_n - i)"

definition big_xs :: "(nat, nat) entry list" where
  "big_xs = map (\<lambda>i. (big_prio i, i)) [0..<big_n]"

definition big_idx :: "nat \<Rightarrow> int" where
  "big_idx k = (if k < big_n then int k else - 1)"

section \<open>Auxiliary facts\<close>

lemma child_scan_unfold:
  "child_scan_unbounded cmp n i xs (2 * i + 1) i =
     (let m1 = (if 2 * i + 1 < n \<and> cmp (xs ! i) (xs ! (2 * i + 1)) then 2 * i + 1 else i)
      in if 2 * i + 2 < n \<and> cmp (xs ! m1) (xs ! (2 * i + 2)) then 2 * i + 2 else m1)"
  by (subst child_scan_unbounded.simps, subst child_scan_unbounded.simps, subst child_scan_unbounded.simps)
     (simp add: Let_def)

lemma child_scan_range:
  "child_scan_unbounded cmp n i xs (2 * i + 1) i \<noteq> i \<Longrightarrow>
     i < child_scan_unbounded cmp n i xs (2 * i + 1) i \<and> child_scan_unbounded cmp n i xs (2 * i + 1) i < n"
  by (simp add: child_scan_unfold Let_def split: if_splits)

lemma swo_irrefl: "strict_weak_order cmp \<Longrightarrow> \<not> cmp a a"
  unfolding strict_weak_order_def by blast

lemma swo_trans: "strict_weak_order cmp \<Longrightarrow> cmp a b \<Longrightarrow> cmp b c \<Longrightarrow> cmp a c"
  unfolding strict_weak_order_def by blast

lemma swo_asym: "strict_weak_order cmp \<Longrightarrow> cmp a b \<Longrightarrow> \<not> cmp b a"
  unfolding strict_weak_order_def by blast

lemma swo_neg_trans: "strict_weak_order cmp \<Longrightarrow> \<not> cmp a b \<Longrightarrow> \<not> cmp b c \<Longrightarrow> \<not> cmp a c"
  unfolding strict_weak_order_def by blast

lemma swo_left: "strict_weak_order cmp \<Longrightarrow> cmp a b \<Longrightarrow> \<not> cmp a c \<Longrightarrow> \<not> cmp b c"
  unfolding strict_weak_order_def by blast

lemma swo_right: "strict_weak_order cmp \<Longrightarrow> cmp a b \<Longrightarrow> \<not> cmp c b \<Longrightarrow> \<not> cmp c a"
  unfolding strict_weak_order_def by blast

lemma heap_from_0: "heap_from cmp n 0 xs = heap_property cmp n xs"
  by (simp add: heap_from_def heap_property_def)

lemma parent_cases: "0 < (j::nat) \<Longrightarrow> ((j - 1) div 2 = i) = (j = 2 * i + 1 \<or> j = 2 * i + 2)"
  by (cases j) auto

lemma parent_less: "0 < (j::nat) \<Longrightarrow> (j - 1) div 2 < j"
  by arith

subsection \<open>Exchanging two slots\<close>

lemma fst_swap_entries: "fst (swap_entries i j (xs, idx)) = xs[i := xs ! j, j := xs ! i]"
  by (simp add: swap_entries_def Let_def)

lemma snd_swap_entries:
  "i < length xs \<Longrightarrow> j < length xs \<Longrightarrow>
   snd (swap_entries i j (xs, idx)) = swap_cells idx (snd (xs ! j)) (snd (xs ! i))"
  by (cases "i = j") (simp_all add: swap_entries_def Let_def)

lemma same_entries_refl: "same_entries n xs xs"
  by (simp add: same_entries_def)

lemma same_entries_trans:
  "same_entries n xs ys \<Longrightarrow> same_entries n ys zs \<Longrightarrow> same_entries n xs zs"
  by (simp add: same_entries_def)

lemma same_entries_swap:
  assumes "i < n" "j < n" "n \<le> length xs"
  shows "same_entries n xs (xs[i := xs ! j, j := xs ! i])"
proof -
  have "mset ((take n xs)[i := take n xs ! j, j := take n xs ! i]) = mset (take n xs)"
    using assms mset_swap [of j "take n xs" i] by simp
  moreover have "take n xs ! j = xs ! j" "take n xs ! i = xs ! i"
    using assms by simp_all
  ultimately have "mset (take n (xs[i := xs ! j, j := xs ! i])) = mset (take n xs)"
    by (simp add: take_update_swap)
  then show ?thesis
    using assms by (simp add: same_entries_def)
qed

lemma index_consistent_distinct:
  "index_consistent n (xs, idx) \<Longrightarrow> i < n \<Longrightarrow> j < n \<Longrightarrow> snd (xs ! i) = snd (xs ! j) \<Longrightarrow> i = j"
  unfolding index_consistent_def by (metis fst_conv snd_conv of_nat_eq_iff)

lemma index_consistent_swap:
  assumes "index_consistent n (xs, idx)" "i < n" "j < n" "n \<le> length xs"
  shows "index_consistent n (swap_entries i j (xs, idx))"
proof (cases "i = j")
  case True
  then show ?thesis using assms by (simp add: swap_entries_def Let_def swap_cells_def)
next
  case False
  have il: "i < length xs" "j < length xs" using assms by simp_all
  let ?xs = "xs[i := xs ! j, j := xs ! i]"
  let ?idx = "swap_cells idx (snd (xs ! j)) (snd (xs ! i))"
  have sw: "swap_entries i j (xs, idx) = (?xs, ?idx)"
    using il False by (simp add: swap_entries_def Let_def)
  have kd: "snd (xs ! i) \<noteq> snd (xs ! j)"
    using index_consistent_distinct [OF assms(1) assms(2) assms(3)] False by blast
  have ii: "idx (snd (xs ! i)) = int i" and ij: "idx (snd (xs ! j)) = int j"
    using assms by (simp_all add: index_consistent_def)
  have a: "?idx (snd (?xs ! l)) = int l" if "l < n" for l
  proof -
    consider "l = i" | "l = j" | "l \<noteq> i" "l \<noteq> j" by blast
    then show ?thesis
    proof cases
      case 1 then show ?thesis using assms False kd ii by (simp add: swap_cells_def)
    next
      case 2 then show ?thesis using assms False kd ij by (simp add: swap_cells_def)
    next
      case 3
      have "snd (xs ! l) \<noteq> snd (xs ! i)" "snd (xs ! l) \<noteq> snd (xs ! j)"
        using index_consistent_distinct [OF assms(1) that] assms 3 by blast+
      moreover have "idx (snd (xs ! l)) = int l"
        using assms that by (simp add: index_consistent_def)
      ultimately show ?thesis using 3 by (simp add: swap_cells_def)
    qed
  qed
  have b: "?idx k = - 1" if "\<forall>l. l < n \<longrightarrow> snd (?xs ! l) \<noteq> k" for k
  proof -
    have ki: "k \<noteq> snd (xs ! j)" using that [rule_format, of i] assms False by auto
    have kj: "k \<noteq> snd (xs ! i)" using that [rule_format, of j] assms False by auto
    have "snd (xs ! l) \<noteq> k" if l: "l < n" for l
    proof (cases "l = i \<or> l = j")
      case True then show ?thesis using ki kj by auto
    next
      case False
      then show ?thesis using \<open>\<forall>l. l < n \<longrightarrow> snd (?xs ! l) \<noteq> k\<close> [rule_format, of l] l by simp
    qed
    then have "idx k = - 1" using assms(1) by (simp add: index_consistent_def)
    then show ?thesis using ki kj by (simp add: swap_cells_def)
  qed
  show ?thesis
    unfolding sw index_consistent_def using a b by simp
qed

declare bubble_up_loop.simps [simp del]

declare bubble_down_loop_unbounded.simps [simp del]

declare child_scan_unbounded.simps [simp del]

declare make_loop_unbounded.simps [simp del]

declare sort_heap_unbounded.simps [simp del]

lemma fst_swap: "fst (swap_entries i j s) = (fst s)[i := fst s ! j, j := fst s ! i]"
  by (cases s) (simp add: fst_swap_entries)

lemma length_swap: "length (fst (swap_entries i j s)) = length (fst s)"
  by (simp add: fst_swap)

lemma same_entries_swap_state:
  "i < n \<Longrightarrow> j < n \<Longrightarrow> n \<le> length (fst s) \<Longrightarrow> same_entries n (fst s) (fst (swap_entries i j s))"
  by (simp add: fst_swap same_entries_swap)

lemma index_consistent_swap_state:
  "index_consistent n s \<Longrightarrow> i < n \<Longrightarrow> j < n \<Longrightarrow> n \<le> length (fst s) \<Longrightarrow>
   index_consistent n (swap_entries i j s)"
  by (cases s) (simp add: index_consistent_swap)

lemma same_entries_length: "same_entries n xs ys \<Longrightarrow> length ys = length xs"
  by (simp add: same_entries_def)

subsection \<open>Sifting toward the root\<close>

lemma bubble_up_loop_frame:
  "i < n \<Longrightarrow> n \<le> length (fst s) \<Longrightarrow> same_entries n (fst s) (fst (bubble_up_loop cmp i s))"
proof (induction cmp i s rule: bubble_up_loop.induct)
  case (1 cmp i s)
  show ?case
  proof (cases "0 < i \<and> cmp (fst s ! ((i - 1) div 2)) (fst s ! i)")
    case True
    let ?p = "(i - 1) div 2"
    let ?s = "swap_entries ?p i s"
    have p: "?p < n" using 1 True by simp
    have a: "same_entries n (fst s) (fst ?s)"
      using same_entries_swap_state [OF p "1.prems"] .
    have "same_entries n (fst ?s) (fst (bubble_up_loop cmp ?p ?s))"
      using "1.IH" [OF True p] "1.prems" by (simp add: length_swap)
    with a have "same_entries n (fst s) (fst (bubble_up_loop cmp ?p ?s))"
      by (rule same_entries_trans)
    then show ?thesis using True by (subst bubble_up_loop.simps) simp
  next
    case False
    then show ?thesis by (subst bubble_up_loop.simps) (auto simp: same_entries_refl)
  qed
qed

lemma bubble_up_loop_index:
  "index_consistent n s \<Longrightarrow> i < n \<Longrightarrow> n \<le> length (fst s) \<Longrightarrow>
   index_consistent n (bubble_up_loop cmp i s)"
proof (induction cmp i s rule: bubble_up_loop.induct)
  case (1 cmp i s)
  show ?case
  proof (cases "0 < i \<and> cmp (fst s ! ((i - 1) div 2)) (fst s ! i)")
    case True
    let ?p = "(i - 1) div 2"
    let ?s = "swap_entries ?p i s"
    have p: "?p < n" using 1 True by simp
    have a: "index_consistent n ?s"
      using index_consistent_swap_state [OF "1.prems"(1) p "1.prems"(2,3)] .
    have "index_consistent n (bubble_up_loop cmp ?p ?s)"
      using "1.IH" [OF True a p] "1.prems" by (simp add: length_swap)
    then show ?thesis using True by (subst bubble_up_loop.simps) simp
  next
    case False
    then show ?thesis using "1.prems" by (subst bubble_up_loop.simps) auto
  qed
qed

lemma up_inv_step:
  assumes swo: "strict_weak_order cmp" and inv: "up_inv cmp n i xs"
    and i: "0 < i" "i < n" "n \<le> length xs"
    and c: "cmp (xs ! ((i - 1) div 2)) (xs ! i)"
  shows "up_inv cmp n ((i - 1) div 2) (xs[(i - 1) div 2 := xs ! i, i := xs ! ((i - 1) div 2)])"
proof -
  define p where "p = (i - 1) div 2"
  define ys where "ys = xs[p := xs ! i, i := xs ! p]"
  have pi: "p < i" using i by (simp add: p_def)
  have yp: "ys ! p = xs ! i" and yi: "ys ! i = xs ! p"
    using pi i by (simp_all add: ys_def)
  have yo: "ys ! l = xs ! l" if "l \<noteq> p" "l \<noteq> i" for l
    using that by (simp add: ys_def)
  have A: "\<not> cmp (xs ! ((j - 1) div 2)) (xs ! j)" if "0 < j" "j < n" "j \<noteq> i" for j
    using inv that by (simp add: up_inv_def)
  have B: "\<not> cmp (xs ! p) (xs ! j)" if "0 < j" "j < n" "(j - 1) div 2 = i" for j
    using inv that i by (simp add: up_inv_def p_def)
  have c': "cmp (xs ! p) (xs ! i)" using c by (simp add: p_def)
  have 1: "\<not> cmp (ys ! ((j - 1) div 2)) (ys ! j)" if j: "0 < j" "j < n" "j \<noteq> p" for j
  proof -
    let ?q = "(j - 1) div 2"
    have qj: "?q < j" using j by simp
    consider (a) "j = i" | (b) "j \<noteq> i" "?q = p" | (c) "j \<noteq> i" "?q = i"
      | (d) "j \<noteq> i" "?q \<noteq> p" "?q \<noteq> i" by blast
    then show ?thesis
    proof cases
      case a
      then show ?thesis using yp yi swo_asym [OF swo c'] by (simp add: p_def)
    next
      case b
      have "\<not> cmp (xs ! p) (xs ! j)" using A [OF j(1,2) b(1)] b(2) by simp
      then have "\<not> cmp (xs ! i) (xs ! j)" using swo_left [OF swo c'] by blast
      then show ?thesis using b j yp yo [of j] by simp
    next
      case c
      then show ?thesis using B [OF j(1,2)] yi yo [of j] j by simp
    next
      case d
      then show ?thesis using A [OF j(1,2)] yo [of j] yo [of ?q] j by simp
    qed
  qed
  have 2: "\<not> cmp (ys ! ((p - 1) div 2)) (ys ! j)"
    if j: "0 < j" "j < n" "(j - 1) div 2 = p" "0 < p" for j
  proof -
    let ?pp = "(p - 1) div 2"
    have ppp: "?pp < p" using j by simp
    have pj: "p < j" using j by auto
    have ypp: "ys ! ?pp = xs ! ?pp" using ppp pi yo [of ?pp] by simp
    have g: "\<not> cmp (xs ! ?pp) (xs ! p)" using A [of p] j pi i by simp
    show ?thesis
    proof (cases "j = i")
      case True
      then show ?thesis using ypp yi g by simp
    next
      case False
      have "\<not> cmp (xs ! p) (xs ! j)" using A [OF j(1,2) False] j by simp
      then have "\<not> cmp (xs ! ?pp) (xs ! j)" using swo_neg_trans [OF swo g] by blast
      then show ?thesis using ypp yo [of j] False pj by simp
    qed
  qed
  show ?thesis
    unfolding up_inv_def p_def [symmetric] ys_def [symmetric] using 1 2 by blast
qed

lemma up_inv_done:
  "up_inv cmp n i xs \<Longrightarrow> \<not> (0 < i \<and> cmp (xs ! ((i - 1) div 2)) (xs ! i)) \<Longrightarrow>
   heap_property cmp n xs"
  unfolding up_inv_def heap_property_def by (metis gr0I)

lemma bubble_up_loop_heap:
  "strict_weak_order cmp \<Longrightarrow> up_inv cmp n i (fst s) \<Longrightarrow> i < n \<Longrightarrow> n \<le> length (fst s) \<Longrightarrow>
   heap_property cmp n (fst (bubble_up_loop cmp i s))"
proof (induction cmp i s rule: bubble_up_loop.induct)
  case (1 cmp i s)
  show ?case
  proof (cases "0 < i \<and> cmp (fst s ! ((i - 1) div 2)) (fst s ! i)")
    case True
    let ?p = "(i - 1) div 2"
    let ?s = "swap_entries ?p i s"
    have p: "?p < n" using 1 True by simp
    have a: "up_inv cmp n ?p (fst ?s)"
      using up_inv_step [OF "1.prems"(1,2) _ "1.prems"(3,4)] True by (simp add: fst_swap)
    have "heap_property cmp n (fst (bubble_up_loop cmp ?p ?s))"
      using "1.IH" [OF True "1.prems"(1) a p] "1.prems" by (simp add: length_swap)
    then show ?thesis using True by (subst bubble_up_loop.simps) simp
  next
    case False
    then show ?thesis
      using up_inv_done [OF "1.prems"(2)] by (subst bubble_up_loop.simps) auto
  qed
qed

subsection \<open>Sifting toward the leaves over unbounded slots\<close>

lemma child_scan_choice:
  "child_scan_unbounded cmp n i xs (2 * i + 1) i = i \<or>
   child_scan_unbounded cmp n i xs (2 * i + 1) i = 2 * i + 1 \<or>
   child_scan_unbounded cmp n i xs (2 * i + 1) i = 2 * i + 2"
  unfolding child_scan_unfold by (simp add: Let_def)

lemma child_scan_dominates:
  assumes "strict_weak_order cmp" "child_scan_unbounded cmp n i xs (2 * i + 1) i \<noteq> i"
  shows "cmp (xs ! i) (xs ! child_scan_unbounded cmp n i xs (2 * i + 1) i)"
  using assms unfolding child_scan_unfold
  by (auto simp: Let_def split: if_splits intro: swo_trans)

lemma child_scan_left:
  assumes "strict_weak_order cmp" "2 * i + 1 < n"
  shows "\<not> cmp (xs ! child_scan_unbounded cmp n i xs (2 * i + 1) i) (xs ! (2 * i + 1))"
  using assms unfolding child_scan_unfold
  by (auto simp: Let_def split: if_splits dest: swo_asym swo_irrefl swo_left)

lemma child_scan_right:
  assumes "strict_weak_order cmp" "2 * i + 2 < n"
  shows "\<not> cmp (xs ! child_scan_unbounded cmp n i xs (2 * i + 1) i) (xs ! (2 * i + 2))"
  using assms unfolding child_scan_unfold
  by (auto simp: Let_def split: if_splits dest: swo_asym swo_irrefl swo_left)

lemma child_scan_children:
  assumes "strict_weak_order cmp" "0 < j" "j < n" "(j - 1) div 2 = i"
  shows "\<not> cmp (xs ! child_scan_unbounded cmp n i xs (2 * i + 1) i) (xs ! j)"
proof -
  have "j = 2 * i + 1 \<or> j = 2 * i + 2"
    using assms parent_cases [of j i] by simp
  then show ?thesis
    using child_scan_left [OF assms(1), of i n xs] child_scan_right [OF assms(1), of i n xs] assms(3)
    by auto
qed

lemma bubble_down_loop_frame:
  "i < n \<Longrightarrow> n \<le> length (fst s) \<Longrightarrow> same_entries n (fst s) (fst (bubble_down_loop_unbounded cmp n i s))"
proof (induction cmp n i s rule: bubble_down_loop_unbounded.induct)
  case (1 cmp n i s)
  define m where "m = child_scan_unbounded cmp n i (fst s) (2 * i + 1) i"
  show ?case
  proof (cases "m = i")
    case True
    then show ?thesis
      using "1.prems" by (subst bubble_down_loop_unbounded.simps) (simp add: m_def same_entries_refl)
  next
    case False
    let ?s = "swap_entries i m s"
    have mn: "m < n" using child_scan_range [of cmp n i "fst s"] False by (simp add: m_def)
    have a: "same_entries n (fst s) (fst ?s)"
      using same_entries_swap_state [OF "1.prems"(1) mn "1.prems"(2)] .
    have "same_entries n (fst ?s) (fst (bubble_down_loop_unbounded cmp n m ?s))"
      using "1.IH" [OF "1.prems"(1) m_def False mn] "1.prems" by (simp add: length_swap)
    with a have "same_entries n (fst s) (fst (bubble_down_loop_unbounded cmp n m ?s))"
      by (rule same_entries_trans)
    then show ?thesis
      using False "1.prems" by (subst bubble_down_loop_unbounded.simps) (simp add: m_def Let_def)
  qed
qed

lemma bubble_down_loop_index:
  "index_consistent n s \<Longrightarrow> i < n \<Longrightarrow> n \<le> length (fst s) \<Longrightarrow>
   index_consistent n (bubble_down_loop_unbounded cmp n i s)"
proof (induction cmp n i s rule: bubble_down_loop_unbounded.induct)
  case (1 cmp n i s)
  define m where "m = child_scan_unbounded cmp n i (fst s) (2 * i + 1) i"
  show ?case
  proof (cases "m = i")
    case True
    then show ?thesis
      using "1.prems" by (subst bubble_down_loop_unbounded.simps) (simp add: m_def)
  next
    case False
    let ?s = "swap_entries i m s"
    have mn: "m < n" using child_scan_range [of cmp n i "fst s"] False by (simp add: m_def)
    have a: "index_consistent n ?s"
      using index_consistent_swap_state [OF "1.prems"(1,2) mn "1.prems"(3)] .
    have "index_consistent n (bubble_down_loop_unbounded cmp n m ?s)"
      using "1.IH" [OF "1.prems"(2) m_def False a mn] "1.prems" by (simp add: length_swap)
    then show ?thesis
      using False "1.prems" by (subst bubble_down_loop_unbounded.simps) (simp add: m_def Let_def)
  qed
qed

lemma down_inv_step:
  assumes swo: "strict_weak_order cmp" and inv: "down_inv cmp n l i xs"
    and i: "l \<le> i" "i < n" "n \<le> length xs"
    and m: "m = child_scan_unbounded cmp n i xs (2 * i + 1) i" "m \<noteq> i"
  shows "down_inv cmp n l m (xs[i := xs ! m, m := xs ! i])"
proof -
  define ys where "ys = xs[i := xs ! m, m := xs ! i]"
  have mr: "i < m" "m < n" using child_scan_range [of cmp n i xs] m by simp_all
  have mp: "(m - 1) div 2 = i"
    using child_scan_choice [of cmp n i xs] m by auto
  have yi: "ys ! i = xs ! m" and ym: "ys ! m = xs ! i"
    using mr i by (simp_all add: ys_def)
  have yo: "ys ! k = xs ! k" if "k \<noteq> i" "k \<noteq> m" for k
    using that by (simp add: ys_def)
  have c: "cmp (xs ! i) (xs ! m)"
    using child_scan_dominates [OF swo, of n i xs] m by simp
  have ch: "\<not> cmp (xs ! m) (xs ! j)" if "0 < j" "j < n" "(j - 1) div 2 = i" for j
    using child_scan_children [OF swo that] m by simp
  have A: "\<not> cmp (xs ! ((j - 1) div 2)) (xs ! j)"
    if "0 < j" "j < n" "l \<le> (j - 1) div 2" "(j - 1) div 2 \<noteq> i" for j
    using inv that by (simp add: down_inv_def)
  have B: "\<not> cmp (xs ! ((i - 1) div 2)) (xs ! j)"
    if "0 < j" "j < n" "(j - 1) div 2 = i" "0 < i" "l \<le> (i - 1) div 2" for j
    using inv that by (simp add: down_inv_def)
  have 1: "\<not> cmp (ys ! ((j - 1) div 2)) (ys ! j)"
    if j: "0 < j" "j < n" "l \<le> (j - 1) div 2" "(j - 1) div 2 \<noteq> m" for j
  proof -
    let ?q = "(j - 1) div 2"
    have qj: "?q < j" using j by simp
    consider (a) "?q = i" "j = m" | (b) "?q = i" "j \<noteq> m" | (c) "?q \<noteq> i" "j = i"
      | (d) "?q \<noteq> i" "j \<noteq> i" by blast
    then show ?thesis
    proof cases
      case a
      then show ?thesis using yi ym swo_asym [OF swo c] by simp
    next
      case b
      have "j \<noteq> i" using b qj by auto
      then show ?thesis using b yi yo [of j] ch [OF j(1,2)] by simp
    next
      case c
      have "\<not> cmp (xs ! ((i - 1) div 2)) (xs ! m)"
        using B [of m] mr mp c j by simp
      moreover have "ys ! ?q = xs ! ?q" using c j mr yo [of ?q] by simp
      ultimately show ?thesis using c yi by simp
    next
      case d
      have "j \<noteq> m" using d mp by auto
      then show ?thesis using d j A [OF j(1,2,3)] yo [of j] yo [of ?q] by simp
    qed
  qed
  have 2: "\<not> cmp (ys ! ((m - 1) div 2)) (ys ! j)"
    if j: "0 < j" "j < n" "(j - 1) div 2 = m" for j
  proof -
    have "j \<noteq> i" "j \<noteq> m" using j mr by auto
    moreover have "\<not> cmp (xs ! m) (xs ! j)"
      using A [OF j(1,2)] j i mr by simp
    ultimately show ?thesis using mp yi yo [of j] by simp
  qed
  show ?thesis
    unfolding down_inv_def ys_def [symmetric] using 1 2 by blast
qed

lemma down_inv_done:
  assumes "strict_weak_order cmp" "down_inv cmp n l i xs"
    "child_scan_unbounded cmp n i xs (2 * i + 1) i = i"
  shows "heap_from cmp n l xs"
  unfolding heap_from_def
proof (intro allI impI)
  fix j
  assume j: "0 < j \<and> j < n \<and> l \<le> (j - 1) div 2"
  show "\<not> cmp (xs ! ((j - 1) div 2)) (xs ! j)"
  proof (cases "(j - 1) div 2 = i")
    case True
    then show ?thesis using child_scan_children [OF assms(1), of j n i xs] j assms(3) by simp
  next
    case False
    then show ?thesis using assms(2) j by (simp add: down_inv_def)
  qed
qed

lemma bubble_down_loop_heap:
  "strict_weak_order cmp \<Longrightarrow> down_inv cmp n l i (fst s) \<Longrightarrow> l \<le> i \<Longrightarrow> i < n \<Longrightarrow>
   n \<le> length (fst s) \<Longrightarrow> heap_from cmp n l (fst (bubble_down_loop_unbounded cmp n i s))"
proof (induction cmp n i s rule: bubble_down_loop_unbounded.induct)
  case (1 cmp n i s)
  define m where "m = child_scan_unbounded cmp n i (fst s) (2 * i + 1) i"
  show ?case
  proof (cases "m = i")
    case True
    then show ?thesis
      using "1.prems" down_inv_done [OF "1.prems"(1,2)]
      by (subst bubble_down_loop_unbounded.simps) (simp add: m_def)
  next
    case False
    let ?s = "swap_entries i m s"
    have mr: "i < m" "m < n"
      using child_scan_range [of cmp n i "fst s"] False by (simp_all add: m_def)
    have a: "down_inv cmp n l m (fst ?s)"
      using down_inv_step [OF "1.prems"(1,2,3,4,5) m_def False] by (simp add: fst_swap)
    have "heap_from cmp n l (fst (bubble_down_loop_unbounded cmp n m ?s))"
      using "1.IH" [OF "1.prems"(4) m_def False "1.prems"(1) a _ mr(2)] mr "1.prems"
      by (simp add: length_swap)
    then show ?thesis
      using False "1.prems" by (subst bubble_down_loop_unbounded.simps) (simp add: m_def Let_def)
  qed
qed

subsection \<open>The guarded primitives over unbounded slots\<close>

lemma bubble_up_nat:
  "bubble_up cmp (int n) (int i) s = (if n \<le> i then s else bubble_up_loop cmp i s)"
  by (simp add: bubble_up_def)

lemma bubble_down_nat:
  "bubble_down_unbounded cmp (int n) (int i) s = (if n \<le> i then s else bubble_down_loop_unbounded cmp n i s)"
  by (simp add: bubble_down_unbounded_def)

lemma bubble_down_frame:
  "n \<le> length (fst s) \<Longrightarrow> same_entries n (fst s) (fst (bubble_down_unbounded cmp (int n) (int i) s))"
  by (simp add: bubble_down_nat same_entries_refl bubble_down_loop_frame)

lemma bubble_up_frame:
  "n \<le> length (fst s) \<Longrightarrow> same_entries n (fst s) (fst (bubble_up cmp (int n) (int i) s))"
  by (simp add: bubble_up_nat same_entries_refl bubble_up_loop_frame)

lemma bubble_down_index:
  "index_consistent n s \<Longrightarrow> n \<le> length (fst s) \<Longrightarrow>
   index_consistent n (bubble_down_unbounded cmp (int n) (int i) s)"
  by (simp add: bubble_down_nat bubble_down_loop_index)

lemma bubble_up_index:
  "index_consistent n s \<Longrightarrow> n \<le> length (fst s) \<Longrightarrow>
   index_consistent n (bubble_up cmp (int n) (int i) s)"
  by (simp add: bubble_up_nat bubble_up_loop_index)

lemma bubble_down_heap:
  "strict_weak_order cmp \<Longrightarrow> down_inv cmp n 0 i (fst s) \<Longrightarrow> i < n \<Longrightarrow> n \<le> length (fst s) \<Longrightarrow>
   heap_property cmp n (fst (bubble_down_unbounded cmp (int n) (int i) s))"
  using bubble_down_loop_heap [of cmp n 0 i s] by (simp add: bubble_down_nat heap_from_0)

lemma bubble_up_heap:
  "strict_weak_order cmp \<Longrightarrow> up_inv cmp n i (fst s) \<Longrightarrow> i < n \<Longrightarrow> n \<le> length (fst s) \<Longrightarrow>
   heap_property cmp n (fst (bubble_up cmp (int n) (int i) s))"
  using bubble_up_loop_heap [of cmp n i s] by (simp add: bubble_up_nat)

subsection \<open>Facts about ranges\<close>

lemma same_entries_Suc:
  assumes "same_entries m xs ys" "m < length xs"
  shows "same_entries (Suc m) xs ys"
proof -
  have l: "length ys = length xs" and e: "ys ! m = xs ! m"
    using assms by (simp_all add: same_entries_def)
  have "mset (take (Suc m) ys) = mset (take m ys) + {#ys ! m#}"
    using assms l by (simp add: take_Suc_conv_app_nth)
  moreover have "mset (take (Suc m) xs) = mset (take m xs) + {#xs ! m#}"
    using assms by (simp add: take_Suc_conv_app_nth)
  ultimately show ?thesis
    using assms e by (simp add: same_entries_def)
qed

lemma same_entries_nth:
  assumes "same_entries m xs ys" "j < m" "m \<le> length xs"
  shows "\<exists>l<m. ys ! j = xs ! l"
proof -
  have l: "length ys = length xs" using assms by (simp add: same_entries_def)
  have "ys ! j \<in> set (take m ys)"
    using assms l by (metis length_take min.absorb2 nth_mem nth_take)
  moreover have "set (take m ys) = set (take m xs)"
    using assms by (metis same_entries_def mset_eq_setD)
  ultimately have "ys ! j \<in> set (take m xs)" by simp
  then obtain l where "l < length (take m xs)" "take m xs ! l = ys ! j"
    by (auto simp: in_set_conv_nth)
  then show ?thesis using assms by auto
qed

lemma heap_root_max:
  assumes "strict_weak_order cmp" "heap_property cmp n xs"
  shows "j < n \<Longrightarrow> \<not> cmp (xs ! 0) (xs ! j)"
proof (induction j rule: less_induct)
  case (less j)
  show ?case
  proof (cases "j = 0")
    case True
    then show ?thesis using swo_irrefl [OF assms(1)] by simp
  next
    case False
    let ?p = "(j - 1) div 2"
    have "?p < j" using False by simp
    then have "\<not> cmp (xs ! 0) (xs ! ?p)" using less by simp
    moreover have "\<not> cmp (xs ! ?p) (xs ! j)"
      using assms(2) False less.prems by (simp add: heap_property_def)
    ultimately show ?thesis using swo_neg_trans [OF assms(1)] by blast
  qed
qed

lemma index_consistent_drop_last:
  assumes "index_consistent (Suc m) (xs, idx)"
  shows "index_consistent m (xs, idx(snd (xs ! m) := - 1))"
proof -
  have d: "snd (xs ! i) \<noteq> snd (xs ! m)" if "i < m" for i
    using index_consistent_distinct [OF assms, of i m] that by auto
  have a: "idx (snd (xs ! i)) = int i" if "i < m" for i
    using assms that by (simp add: index_consistent_def)
  have b: "idx k = - 1" if "\<forall>i. i < m \<longrightarrow> snd (xs ! i) \<noteq> k" "k \<noteq> snd (xs ! m)" for k
  proof -
    have "\<forall>i. i < Suc m \<longrightarrow> snd (xs ! i) \<noteq> k"
      using that by (auto simp: less_Suc_eq)
    then show ?thesis using assms by (simp add: index_consistent_def)
  qed
  show ?thesis
    unfolding index_consistent_def using a b d by auto
qed

subsection \<open>Facts about \<open>pop_unbounded\<close>\<close>

lemma pop_unfold:
  assumes "0 < n"
  shows "pop_unbounded cmp (int n) s =
     bubble_down_unbounded cmp (int (n - 1)) (int 0)
       (fst (swap_entries 0 (n - 1) s),
        (snd (swap_entries 0 (n - 1) s))(snd (fst (swap_entries 0 (n - 1) s) ! (n - 1)) := - 1))"
proof -
  have e: "int n - 1 = int (n - 1)" using assms by simp
  have "\<not> int n \<le> 0" using assms by simp
  then show ?thesis
    unfolding pop_unbounded_def Let_def e by (cases "swap_entries 0 (n - 1) s") (simp del: of_nat_diff)
qed

lemma pop_frame_inner:
  assumes "0 < n" "n \<le> length (fst s)"
  shows "same_entries (n - 1) (fst (swap_entries 0 (n - 1) s)) (fst (pop_unbounded cmp (int n) s))"
  unfolding pop_unfold [OF assms(1)]
  using bubble_down_frame [of "n - 1" "(fst (swap_entries 0 (n - 1) s),
        (snd (swap_entries 0 (n - 1) s))(snd (fst (swap_entries 0 (n - 1) s) ! (n - 1)) := - 1))" cmp 0]
    assms by (simp add: length_swap)

lemma pop_frame:
  assumes "0 < n" "n \<le> length (fst s)"
  shows "same_entries n (fst s) (fst (pop_unbounded cmp (int n) s))"
proof -
  let ?s1 = "swap_entries 0 (n - 1) s"
  have "same_entries (Suc (n - 1)) (fst ?s1) (fst (pop_unbounded cmp (int n) s))"
    using same_entries_Suc [OF pop_frame_inner [OF assms]] assms by (simp add: length_swap)
  moreover have "same_entries n (fst s) (fst ?s1)"
    using same_entries_swap_state [of 0 n "n - 1" s] assms by simp
  ultimately show ?thesis
    using assms same_entries_trans by fastforce
qed

lemma pop_last:
  assumes "0 < n" "n \<le> length (fst s)"
  shows "fst (pop_unbounded cmp (int n) s) ! (n - 1) = fst s ! 0"
proof -
  have "fst (pop_unbounded cmp (int n) s) ! (n - 1) = fst (swap_entries 0 (n - 1) s) ! (n - 1)"
    using pop_frame_inner [OF assms, of cmp] by (simp add: same_entries_def)
  then show ?thesis using assms by (simp add: fst_swap)
qed

lemma pop_index:
  assumes "0 < n" "n \<le> length (fst s)" "index_consistent n s"
  shows "index_consistent (n - 1) (pop_unbounded cmp (int n) s)"
proof -
  let ?s1 = "swap_entries 0 (n - 1) s"
  have "index_consistent n ?s1"
    using index_consistent_swap_state [OF assms(3), of 0 "n - 1"] assms by simp
  then have "index_consistent (Suc (n - 1)) (fst ?s1, snd ?s1)" using assms by simp
  then have "index_consistent (n - 1) (fst ?s1, (snd ?s1)(snd (fst ?s1 ! (n - 1)) := - 1))"
    by (rule index_consistent_drop_last)
  then show ?thesis
    unfolding pop_unfold [OF assms(1)]
    using assms by (intro bubble_down_index) (simp_all add: length_swap)
qed

lemma pop_heap:
  assumes "strict_weak_order cmp" "0 < n" "n \<le> length (fst s)" "heap_property cmp n (fst s)"
  shows "heap_property cmp (n - 1) (fst (pop_unbounded cmp (int n) s))"
proof (cases "n = 1")
  case True
  then show ?thesis by (simp add: heap_property_def)
next
  case False
  let ?s1 = "swap_entries 0 (n - 1) s"
  let ?s2 = "(fst ?s1, (snd ?s1)(snd (fst ?s1 ! (n - 1)) := - 1))"
  have "\<not> cmp (fst ?s1 ! ((j - 1) div 2)) (fst ?s1 ! j)"
    if "0 < j" "j < n - 1" "(j - 1) div 2 \<noteq> 0" for j
  proof -
    have "(j - 1) div 2 < j" using that by simp
    then show ?thesis
      using that assms(4) by (simp add: fst_swap heap_property_def)
  qed
  then have "down_inv cmp (n - 1) 0 0 (fst ?s2)"
    by (simp add: down_inv_def)
  then show ?thesis
    unfolding pop_unfold [OF assms(2)]
    using assms False by (intro bubble_down_heap) (simp_all add: length_swap)
qed

lemma pop_root_max:
  assumes "strict_weak_order cmp" "0 < n" "n \<le> length (fst s)" "heap_property cmp n (fst s)"
    "j < n"
  shows "\<not> cmp (fst s ! 0) (fst (pop_unbounded cmp (int n) s) ! j)"
proof -
  obtain l where "l < n" "fst (pop_unbounded cmp (int n) s) ! j = fst s ! l"
    using same_entries_nth [OF pop_frame [OF assms(2,3)] assms(5,3)] by blast
  then show ?thesis using heap_root_max [OF assms(1,4)] by simp
qed

lemma pop_extracted_absent:
  assumes "0 < n" "n \<le> length (fst s)" "index_consistent n s"
  shows "snd (pop_unbounded cmp (int n) s) (snd (fst s ! 0)) = - 1"
proof -
  let ?s1 = "swap_entries 0 (n - 1) s"
  let ?s' = "pop_unbounded cmp (int n) s"
  have ic: "index_consistent n (fst s, snd s)" using assms by simp
  have "snd (fst ?s' ! j) \<noteq> snd (fst s ! 0)" if j: "j < n - 1" for j
  proof -
    have "n - 1 \<le> length (fst ?s1)" using assms by (simp add: length_swap)
    then obtain l where l: "l < n - 1" "fst ?s' ! j = fst ?s1 ! l"
      using same_entries_nth [OF pop_frame_inner [OF assms(1,2)] j] by blast
    have "\<exists>l'. 0 < l' \<and> l' < n \<and> fst ?s1 ! l = fst s ! l'"
    proof (cases "l = 0")
      case True
      have "0 < length (fst s)" "0 < n - 1" using l assms by auto
      then have "fst ?s1 ! l = fst s ! (n - 1)" using True by (simp add: fst_swap)
      then show ?thesis using l by (intro exI [of _ "n - 1"]) simp
    next
      case False
      then show ?thesis using l assms by (auto simp: fst_swap intro: exI [of _ l])
    qed
    then obtain l' where "0 < l'" "l' < n" "fst ?s1 ! l = fst s ! l'" by blast
    then show ?thesis
      using index_consistent_distinct [OF ic, of l' 0] l assms by auto
  qed
  then show ?thesis
    using pop_index [OF assms, of cmp] by (simp add: index_consistent_def)
qed

subsection \<open>Facts about \<open>push\<close>\<close>

lemma push_unfold:
  assumes "0 < n"
  shows "push cmp (int n) (xs, idx) =
     bubble_up cmp (int n) (int (n - 1)) (xs, idx(snd (xs ! (n - 1)) := int (n - 1)))"
proof -
  have e: "int n - 1 = int (n - 1)" using assms by simp
  have "\<not> int n \<le> 0" using assms by simp
  then show ?thesis
    unfolding push_def e by (simp del: of_nat_diff)
qed

lemma index_consistent_add_last:
  assumes "index_consistent m (xs, idx)" "\<forall>i. i < m \<longrightarrow> snd (xs ! i) \<noteq> snd (xs ! m)"
  shows "index_consistent (Suc m) (xs, idx(snd (xs ! m) := int m))"
proof -
  have a: "idx (snd (xs ! i)) = int i" if "i < m" for i
    using assms that by (simp add: index_consistent_def)
  have b: "idx k = - 1" if "\<forall>i. i < Suc m \<longrightarrow> snd (xs ! i) \<noteq> k" for k
    using assms(1) that by (simp add: index_consistent_def)
  show ?thesis
    unfolding index_consistent_def using a b assms(2) by (auto simp: less_Suc_eq)
qed

lemma push_index:
  assumes "0 < n" "n \<le> length xs" "index_consistent (n - 1) (xs, idx)"
    "\<forall>i. i < n - 1 \<longrightarrow> snd (xs ! i) \<noteq> snd (xs ! (n - 1))"
  shows "index_consistent n (push cmp (int n) (xs, idx))"
proof -
  have "index_consistent (Suc (n - 1)) (xs, idx(snd (xs ! (n - 1)) := int (n - 1)))"
    using index_consistent_add_last [OF assms(3,4)] .
  then show ?thesis
    unfolding push_unfold [OF assms(1)]
    using assms by (intro bubble_up_index) simp_all
qed

lemma push_heap:
  assumes "strict_weak_order cmp" "0 < n" "n \<le> length xs" "heap_property cmp (n - 1) xs"
  shows "heap_property cmp n (fst (push cmp (int n) (xs, idx)))"
proof -
  have "\<not> cmp (xs ! ((j - 1) div 2)) (xs ! j)" if "0 < j" "j < n" "j \<noteq> n - 1" for j
    using assms(4) that by (simp add: heap_property_def)
  moreover have "(j - 1) div 2 \<noteq> n - 1" if "0 < j" "j < n" for j
    using that by arith
  ultimately have "up_inv cmp n (n - 1) xs"
    unfolding up_inv_def by blast
  then show ?thesis
    unfolding push_unfold [OF assms(2)]
    using assms by (intro bubble_up_heap) simp_all
qed

lemma push_frame:
  assumes "0 < n" "n \<le> length xs"
  shows "same_entries n xs (fst (push cmp (int n) (xs, idx)))"
  unfolding push_unfold [OF assms(1)]
  using bubble_up_frame [of n "(xs, idx(snd (xs ! (n - 1)) := int (n - 1)))" cmp "n - 1"] assms
  by simp

subsection \<open>Replacing the entry of one slot\<close>

lemma replace_down:
  assumes swo: "strict_weak_order cmp" and h: "heap_property cmp m xs" and i: "i < m"
    and o: "\<forall>j. j < m \<and> j \<noteq> i \<longrightarrow> ys ! j = xs ! j" and c: "cmp (ys ! i) (xs ! i)"
  shows "down_inv cmp m 0 i ys"
proof -
  have H: "\<not> cmp (xs ! ((j - 1) div 2)) (xs ! j)" if "0 < j" "j < m" for j
    using h that by (simp add: heap_property_def)
  have 1: "\<not> cmp (ys ! ((j - 1) div 2)) (ys ! j)"
    if j: "0 < j" "j < m" "(j - 1) div 2 \<noteq> i" for j
  proof -
    have q: "(j - 1) div 2 < j" using j by simp
    then have yq: "ys ! ((j - 1) div 2) = xs ! ((j - 1) div 2)" using o j by simp
    show ?thesis
    proof (cases "j = i")
      case True
      have "\<not> cmp (xs ! ((i - 1) div 2)) (ys ! i)"
        using swo_right [OF swo c] H [of i] j True by blast
      then show ?thesis using True yq by simp
    next
      case False
      then show ?thesis using H [OF j(1,2)] o j yq by simp
    qed
  qed
  have 2: "\<not> cmp (ys ! ((i - 1) div 2)) (ys ! j)"
    if j: "0 < j" "j < m" "(j - 1) div 2 = i" "0 < i" for j
  proof -
    have "i < j" using j by auto
    moreover have "(i - 1) div 2 < i" using j parent_less by blast
    ultimately have "ys ! j = xs ! j" "ys ! ((i - 1) div 2) = xs ! ((i - 1) div 2)"
      using o j i by simp_all
    moreover have "\<not> cmp (xs ! ((i - 1) div 2)) (xs ! i)" "\<not> cmp (xs ! i) (xs ! j)"
      using H [of i] H [of j] j i by simp_all
    then have "\<not> cmp (xs ! ((i - 1) div 2)) (xs ! j)"
      using swo_neg_trans [OF swo] by blast
    ultimately show ?thesis by simp
  qed
  show ?thesis unfolding down_inv_def using 1 2 by blast
qed

lemma replace_up:
  assumes swo: "strict_weak_order cmp" and h: "heap_property cmp m xs" and i: "i < m"
    and o: "\<forall>j. j < m \<and> j \<noteq> i \<longrightarrow> ys ! j = xs ! j" and c: "cmp (xs ! i) (ys ! i)"
  shows "up_inv cmp m i ys"
proof -
  have H: "\<not> cmp (xs ! ((j - 1) div 2)) (xs ! j)" if "0 < j" "j < m" for j
    using h that by (simp add: heap_property_def)
  have 1: "\<not> cmp (ys ! ((j - 1) div 2)) (ys ! j)" if j: "0 < j" "j < m" "j \<noteq> i" for j
  proof -
    have q: "(j - 1) div 2 < j" using j by simp
    have yj: "ys ! j = xs ! j" using o j by simp
    show ?thesis
    proof (cases "(j - 1) div 2 = i")
      case True
      have "\<not> cmp (ys ! i) (xs ! j)"
        using swo_left [OF swo c] H [OF j(1,2)] True by blast
      then show ?thesis using True yj by simp
    next
      case False
      then have "ys ! ((j - 1) div 2) = xs ! ((j - 1) div 2)" using o q j by simp
      then show ?thesis using H [OF j(1,2)] yj by simp
    qed
  qed
  have 2: "\<not> cmp (ys ! ((i - 1) div 2)) (ys ! j)"
    if j: "0 < j" "j < m" "(j - 1) div 2 = i" "0 < i" for j
  proof -
    have "i < j" using j by auto
    moreover have "(i - 1) div 2 < i" using j parent_less by blast
    ultimately have "ys ! j = xs ! j" "ys ! ((i - 1) div 2) = xs ! ((i - 1) div 2)"
      using o j i by simp_all
    moreover have "\<not> cmp (xs ! ((i - 1) div 2)) (xs ! i)" "\<not> cmp (xs ! i) (xs ! j)"
      using H [of i] H [of j] j i by simp_all
    then have "\<not> cmp (xs ! ((i - 1) div 2)) (xs ! j)"
      using swo_neg_trans [OF swo] by blast
    ultimately show ?thesis by simp
  qed
  show ?thesis unfolding up_inv_def using 1 2 by blast
qed

lemma replace_eq:
  assumes swo: "strict_weak_order cmp" and h: "heap_property cmp m xs" and i: "i < m"
    and o: "\<forall>j. j < m \<and> j \<noteq> i \<longrightarrow> ys ! j = xs ! j"
    and c: "\<not> cmp (ys ! i) (xs ! i)" "\<not> cmp (xs ! i) (ys ! i)"
  shows "heap_property cmp m ys"
  unfolding heap_property_def
proof (intro allI impI)
  fix j
  assume j: "0 < j \<and> j < m"
  have H: "\<not> cmp (xs ! ((j - 1) div 2)) (xs ! j)" if "0 < j" "j < m" for j
    using h that by (simp add: heap_property_def)
  have q: "(j - 1) div 2 < j" using j parent_less by blast
  consider (a) "j = i" | (b) "(j - 1) div 2 = i" | (c) "j \<noteq> i" "(j - 1) div 2 \<noteq> i" by blast
  then show "\<not> cmp (ys ! ((j - 1) div 2)) (ys ! j)"
  proof cases
    case a
    have "ys ! ((j - 1) div 2) = xs ! ((j - 1) div 2)" using o q j a by simp
    moreover have "\<not> cmp (xs ! ((j - 1) div 2)) (xs ! i)"
      using H [of j] j a by simp
    then have "\<not> cmp (xs ! ((j - 1) div 2)) (ys ! j)"
      using swo_neg_trans [OF swo _ c(2)] a by blast
    ultimately show ?thesis by simp
  next
    case b
    have "ys ! j = xs ! j" using o q j b by simp
    moreover have "\<not> cmp (xs ! i) (xs ! j)"
      using H [of j] j b by simp
    then have "\<not> cmp (ys ! i) (xs ! j)"
      using swo_neg_trans [OF swo c(1)] by blast
    ultimately show ?thesis using b by simp
  next
    case c
    then show ?thesis using o q j H [of j] by simp
  qed
qed

lemma heap_property_mono: "heap_property cmp n xs \<Longrightarrow> m \<le> n \<Longrightarrow> heap_property cmp m xs"
  by (simp add: heap_property_def)

lemma heap_property_cong:
  "heap_property cmp m xs \<Longrightarrow> \<forall>j. j < m \<longrightarrow> ys ! j = xs ! j \<Longrightarrow> heap_property cmp m ys"
  unfolding heap_property_def
  by (metis less_trans parent_less)

lemma live_slot:
  assumes "index_consistent n (xs, idx)" "i < n" "snd (xs ! i) = key"
  shows "idx key = int i"
  using assms by (auto simp: index_consistent_def)

subsection \<open>Facts about \<open>update_unbounded\<close>\<close>

lemma update_unfold:
  assumes "0 < n" "idx key = int i"
  shows "update_unbounded cmp (int n) key v (xs, idx) =
     (if cmp (xs[i := (v, snd (xs ! i))] ! i) (xs ! i)
        then (True, bubble_down_unbounded cmp (int n) (int i) (xs[i := (v, snd (xs ! i))], idx))
      else if cmp (xs ! i) (xs[i := (v, snd (xs ! i))] ! i)
        then (True, bubble_up cmp (int n) (int i) (xs[i := (v, snd (xs ! i))], idx))
      else (True, (xs[i := (v, snd (xs ! i))], idx)))"
  using assms(1) by (simp add: update_unbounded_def Let_def assms(2))

lemma update_flag:
  assumes "0 < n" "idx key = int i"
  shows "fst (update_unbounded cmp (int n) key v (xs, idx))"
  unfolding update_unfold [where idx = idx and key = key, OF assms] by simp

lemma index_consistent_keys:
  assumes "index_consistent n (xs, idx)" "\<forall>j. j < n \<longrightarrow> snd (ys ! j) = snd (xs ! j)"
  shows "index_consistent n (ys, idx)"
  using assms unfolding index_consistent_def by simp

lemma update_index:
  assumes "0 < n" "n \<le> length xs" "index_consistent n (xs, idx)" "idx key = int i"
  shows "index_consistent n (snd (update_unbounded cmp (int n) key v (xs, idx)))"
proof -
  let ?ys = "xs[i := (v, snd (xs ! i))]"
  have "snd (?ys ! j) = snd (xs ! j)" if "j < n" for j
    using that assms(2) by (cases "j = i") simp_all
  then have "index_consistent n (?ys, idx)"
    using index_consistent_keys [OF assms(3)] by blast
  then show ?thesis
    unfolding update_unfold [where idx = idx and key = key, OF assms(1,4)]
    using assms(2) by (simp add: bubble_down_index bubble_up_index)
qed

lemma update_heap:
  assumes "strict_weak_order cmp" "0 < n" "n \<le> length xs" "heap_property cmp n xs"
    "idx key = int i" "i < n"
  shows "heap_property cmp n (fst (snd (update_unbounded cmp (int n) key v (xs, idx))))"
proof -
  let ?ys = "xs[i := (v, snd (xs ! i))]"
  have o: "\<forall>j. j < n \<and> j \<noteq> i \<longrightarrow> ?ys ! j = xs ! j" by simp
  have l: "n \<le> length (fst (?ys, idx))" using assms by simp
  consider (a) "cmp (?ys ! i) (xs ! i)" | (b) "\<not> cmp (?ys ! i) (xs ! i)" "cmp (xs ! i) (?ys ! i)"
    | (c) "\<not> cmp (?ys ! i) (xs ! i)" "\<not> cmp (xs ! i) (?ys ! i)" by blast
  then show ?thesis
  proof cases
    case a
    have "down_inv cmp n 0 i (fst (?ys, idx))"
      using replace_down [OF assms(1,4,6) o a] by simp
    then have "heap_property cmp n (fst (bubble_down_unbounded cmp (int n) (int i) (?ys, idx)))"
      using bubble_down_heap [OF assms(1) _ assms(6) l] by blast
    then show ?thesis unfolding update_unfold [where idx = idx and key = key, OF assms(2,5)] using a by simp
  next
    case b
    have "up_inv cmp n i (fst (?ys, idx))"
      using replace_up [OF assms(1,4,6) o b(2)] by simp
    then have "heap_property cmp n (fst (bubble_up cmp (int n) (int i) (?ys, idx)))"
      using bubble_up_heap [OF assms(1) _ assms(6) l] by blast
    then show ?thesis unfolding update_unfold [where idx = idx and key = key, OF assms(2,5)] using b by simp
  next
    case c
    have "heap_property cmp n ?ys"
      using replace_eq [OF assms(1,4,6) o c] .
    then show ?thesis unfolding update_unfold [where idx = idx and key = key, OF assms(2,5)] using c by simp
  qed
qed

subsection \<open>Facts about \<open>pop_key_unbounded\<close>\<close>

lemma pop_key_unfold:
  assumes "0 < n" "idx key = int i"
  shows "pop_key_unbounded cmp (int n) key (xs, idx) =
     (let s1 = swap_entries i (n - 1) (xs, idx);
          s2 = (fst s1, (snd s1)(snd (fst s1 ! (n - 1)) := - 1))
      in if cmp (fst s1 ! i) (xs ! i)
           then (True, bubble_down_unbounded cmp (int (n - 1)) (int i) s2)
         else if cmp (xs ! i) (fst s1 ! i)
           then (True, bubble_up cmp (int (n - 1)) (int i) s2)
         else (True, s2))"
proof -
  have e: "nat (int n - 1) = n - 1" "int n - 1 = int (n - 1)" using assms by simp_all
  show ?thesis
    using assms(1)
    by (cases "swap_entries i (n - 1) (xs, idx)")
       (simp add: pop_key_unbounded_def Let_def assms(2) e del: of_nat_diff)
qed

lemma pop_key_flag:
  assumes "0 < n" "idx key = int i"
  shows "fst (pop_key_unbounded cmp (int n) key (xs, idx))"
  unfolding pop_key_unfold [where idx = idx and key = key, OF assms] by (simp add: Let_def)

lemma pop_key_frame_inner:
  assumes "0 < n" "n \<le> length xs" "idx key = int i"
  shows "same_entries (n - 1) (fst (swap_entries i (n - 1) (xs, idx)))
           (fst (snd (pop_key_unbounded cmp (int n) key (xs, idx))))"
proof -
  let ?s1 = "swap_entries i (n - 1) (xs, idx)"
  let ?s2 = "(fst ?s1, (snd ?s1)(snd (fst ?s1 ! (n - 1)) := - 1))"
  have l: "n - 1 \<le> length (fst ?s2)" using assms by (simp add: length_swap)
  show ?thesis
    unfolding pop_key_unfold [where idx = idx and key = key, OF assms(1,3)] Let_def
    using bubble_down_frame [OF l, of cmp i] bubble_up_frame [OF l, of cmp i]
    by (simp add: same_entries_refl)
qed

lemma pop_key_index:
  assumes "0 < n" "n \<le> length xs" "index_consistent n (xs, idx)" "idx key = int i" "i < n"
  shows "index_consistent (n - 1) (snd (pop_key_unbounded cmp (int n) key (xs, idx)))"
proof -
  let ?s1 = "swap_entries i (n - 1) (xs, idx)"
  let ?s2 = "(fst ?s1, (snd ?s1)(snd (fst ?s1 ! (n - 1)) := - 1))"
  have l: "n - 1 \<le> length (fst ?s2)" using assms by (simp add: length_swap)
  have "index_consistent n ?s1"
    using index_consistent_swap [OF assms(3,5) _ assms(2), of "n - 1"] assms(1) by simp
  then have "index_consistent (Suc (n - 1)) (fst ?s1, snd ?s1)" using assms by simp
  then have "index_consistent (n - 1) ?s2"
    by (rule index_consistent_drop_last)
  then show ?thesis
    unfolding pop_key_unfold [where idx = idx and key = key, OF assms(1,4)] Let_def
    using bubble_down_index [OF _ l, of cmp i] bubble_up_index [OF _ l, of cmp i]
    by simp
qed

lemma pop_key_heap:
  assumes "strict_weak_order cmp" "0 < n" "n \<le> length xs" "heap_property cmp n xs"
    "idx key = int i" "i < n"
  shows "heap_property cmp (n - 1) (fst (snd (pop_key_unbounded cmp (int n) key (xs, idx))))"
proof -
  let ?s1 = "swap_entries i (n - 1) (xs, idx)"
  let ?s2 = "(fst ?s1, (snd ?s1)(snd (fst ?s1 ! (n - 1)) := - 1))"
  let ?ys = "fst ?s1"
  have ys: "?ys = xs[i := xs ! (n - 1), n - 1 := xs ! i]" by (simp add: fst_swap)
  have l: "n - 1 \<le> length (fst ?s2)" using assms by (simp add: length_swap)
  have h: "heap_property cmp (n - 1) xs"
    using heap_property_mono [OF assms(4)] by simp
  have o: "\<forall>j. j < n - 1 \<and> j \<noteq> i \<longrightarrow> ?ys ! j = xs ! j" by (simp add: fst_swap)
  show ?thesis
  proof (cases "i = n - 1")
    case True
    then have "?ys = xs" by (simp add: fst_swap)
    then show ?thesis
      unfolding pop_key_unfold [where idx = idx and key = key, OF assms(2,5)] Let_def
      using swo_irrefl [OF assms(1)] h by simp
  next
    case False
    then have i: "i < n - 1" using assms by simp
    consider (a) "cmp (?ys ! i) (xs ! i)" | (b) "\<not> cmp (?ys ! i) (xs ! i)" "cmp (xs ! i) (?ys ! i)"
      | (c) "\<not> cmp (?ys ! i) (xs ! i)" "\<not> cmp (xs ! i) (?ys ! i)" by blast
    then show ?thesis
    proof cases
      case a
      have "down_inv cmp (n - 1) 0 i (fst ?s2)"
        using replace_down [OF assms(1) h i o a] by simp
      then have "heap_property cmp (n - 1) (fst (bubble_down_unbounded cmp (int (n - 1)) (int i) ?s2))"
        using bubble_down_heap [OF assms(1) _ i l] by blast
      then show ?thesis unfolding pop_key_unfold [where idx = idx and key = key, OF assms(2,5)] Let_def using a by simp
    next
      case b
      have "up_inv cmp (n - 1) i (fst ?s2)"
        using replace_up [OF assms(1) h i o b(2)] by simp
      then have "heap_property cmp (n - 1) (fst (bubble_up cmp (int (n - 1)) (int i) ?s2))"
        using bubble_up_heap [OF assms(1) _ i l] by blast
      then show ?thesis unfolding pop_key_unfold [where idx = idx and key = key, OF assms(2,5)] Let_def using b by simp
    next
      case c
      have "heap_property cmp (n - 1) ?ys"
        using replace_eq [OF assms(1) h i o c] .
      then show ?thesis unfolding pop_key_unfold [where idx = idx and key = key, OF assms(2,5)] Let_def using c by simp
    qed
  qed
qed

lemma swap_last_mset:
  fixes xs :: "('p, 'k) entry list"
  assumes "0 < n" "n \<le> length xs" "i < n"
  shows "mset (take (n - 1) (xs[i := xs ! (n - 1), n - 1 := xs ! i])) =
         mset (take n xs) - {#xs ! i#}"
proof -
  define ys where "ys = xs[i := xs ! (n - 1), n - 1 := xs ! i]"
  have "same_entries n xs ys"
    using same_entries_swap [of i n "n - 1" xs] assms by (simp add: ys_def)
  then have a: "mset (take n ys) = mset (take n xs)" by (simp add: same_entries_def)
  have l: "n - 1 < length ys" using assms by (simp add: ys_def)
  have e: "ys ! (n - 1) = xs ! i" using assms by (simp add: ys_def)
  have "take (Suc (n - 1)) ys = take (n - 1) ys @ [ys ! (n - 1)]"
    using l by (rule take_Suc_conv_app_nth)
  then have "take n ys = take (n - 1) ys @ [xs ! i]" using assms e by simp
  then have "mset (take n ys) = mset (take (n - 1) ys) + {#xs ! i#}" by simp
  then have "mset (take (n - 1) ys) = mset (take n xs) - {#xs ! i#}"
    using a by (metis add_diff_cancel_right')
  then show ?thesis by (simp add: ys_def)
qed

lemma pop_key_mset:
  assumes "0 < n" "n \<le> length xs" "idx key = int i" "i < n"
  shows "mset (take (n - 1) (fst (snd (pop_key_unbounded cmp (int n) key (xs, idx))))) =
         mset (take n xs) - {#xs ! i#}"
proof -
  have "mset (take (n - 1) (fst (snd (pop_key_unbounded cmp (int n) key (xs, idx))))) =
        mset (take (n - 1) (fst (swap_entries i (n - 1) (xs, idx))))"
    using pop_key_frame_inner [where idx = idx and key = key, OF assms(1,2,3), of cmp] by (simp add: same_entries_def)
  then show ?thesis
    using swap_last_mset [OF assms(1,2,4)] by (simp add: fst_swap)
qed

lemma absent_after:
  assumes "index_consistent m s'" "same_entries m ys (fst s')" "m \<le> length ys"
    "\<forall>l. l < m \<longrightarrow> snd (ys ! l) \<noteq> k"
  shows "snd s' k = - 1"
proof -
  have "snd (fst s' ! j) \<noteq> k" if "j < m" for j
    using same_entries_nth [OF assms(2) that assms(3)] assms(4) by auto
  then show ?thesis using assms(1) by (simp add: index_consistent_def)
qed

lemma pop_key_absent:
  assumes "0 < n" "n \<le> length xs" "index_consistent n (xs, idx)" "idx key = int i" "i < n"
    "snd (xs ! i) = key"
  shows "snd (snd (pop_key_unbounded cmp (int n) key (xs, idx))) key = - 1"
proof -
  let ?ys = "fst (swap_entries i (n - 1) (xs, idx))"
  have ys: "?ys = xs[i := xs ! (n - 1), n - 1 := xs ! i]" by (simp add: fst_swap)
  have "snd (?ys ! l) \<noteq> key" if l: "l < n - 1" for l
  proof (cases "l = i")
    case True
    have ln: "n - 1 < n" using assms by simp
    have "?ys ! l = xs ! (n - 1)" using l assms True by (simp add: fst_swap)
    then show ?thesis
      using index_consistent_distinct [OF assms(3) ln assms(5)] assms(6) l True by auto
  next
    case False
    have ln: "l < n" using l by simp
    have "?ys ! l = xs ! l" using l False by (simp add: fst_swap)
    then show ?thesis
      using index_consistent_distinct [OF assms(3) ln assms(5)] assms(6) False by auto
  qed
  then show ?thesis
    using absent_after [OF pop_key_index [where idx = idx and key = key, OF assms(1,2,3,4,5)] pop_key_frame_inner [where idx = idx and key = key, OF assms(1,2,4)]]
      assms by (simp add: length_swap)
qed

subsection \<open>Facts about \<open>make_unbounded\<close>\<close>

lemma make_loop_step:
  "make_loop_unbounded cmp N (int k) s = make_loop_unbounded cmp N (int k - 1) (bubble_down_unbounded cmp N (int k) s)"
  by (subst make_loop_unbounded.simps) simp

lemma make_loop_stop: "make_loop_unbounded cmp N (int 0 - 1) s = s"
  by (subst make_loop_unbounded.simps) simp

lemma down_inv_from: "heap_from cmp n (Suc k) xs \<Longrightarrow> down_inv cmp n k k xs"
proof -
  assume h: "heap_from cmp n (Suc k) xs"
  have "\<not> (0 < k \<and> k \<le> (k - 1) div 2)" using parent_less [of k] by auto
  moreover have "\<not> cmp (xs ! ((j - 1) div 2)) (xs ! j)"
    if "0 < j" "j < n" "k \<le> (j - 1) div 2" "(j - 1) div 2 \<noteq> k" for j
    using h that by (simp add: heap_from_def)
  ultimately show ?thesis unfolding down_inv_def by blast
qed

lemma make_loop_heap:
  assumes "strict_weak_order cmp"
  shows "k \<le> n \<Longrightarrow> n \<le> length (fst s) \<Longrightarrow> heap_from cmp n k (fst s) \<Longrightarrow>
     heap_property cmp n (fst (make_loop_unbounded cmp (int n) (int k - 1) s))"
proof (induction k arbitrary: s)
  case 0
  then show ?case by (simp only: make_loop_stop heap_from_0)
next
  case (Suc k)
  let ?s = "bubble_down_loop_unbounded cmp n k s"
  have k: "k < n" using Suc.prems by simp
  have "heap_from cmp n k (fst ?s)"
    using bubble_down_loop_heap [OF assms down_inv_from [OF Suc.prems(3)] _ k Suc.prems(2)]
    by simp
  moreover have "n \<le> length (fst ?s)"
    using same_entries_length [OF bubble_down_loop_frame [OF k Suc.prems(2)]] Suc.prems(2)
    by simp
  ultimately have "heap_property cmp n (fst (make_loop_unbounded cmp (int n) (int k - 1) ?s))"
    using Suc.IH [of ?s] k by simp
  moreover have "make_loop_unbounded cmp (int n) (int (Suc k) - 1) s = make_loop_unbounded cmp (int n) (int k - 1) ?s"
    using make_loop_step [of cmp "int n" k s] k by (simp add: bubble_down_nat)
  ultimately show ?case by simp
qed

lemma make_loop_index:
  "k \<le> n \<Longrightarrow> n \<le> length (fst s) \<Longrightarrow> index_consistent n s \<Longrightarrow>
     index_consistent n (make_loop_unbounded cmp (int n) (int k - 1) s) \<and>
     same_entries n (fst s) (fst (make_loop_unbounded cmp (int n) (int k - 1) s))"
proof (induction k arbitrary: s)
  case 0
  then show ?case by (simp only: make_loop_stop same_entries_refl)
next
  case (Suc k)
  let ?s = "bubble_down_loop_unbounded cmp n k s"
  have k: "k < n" using Suc.prems by simp
  have f: "same_entries n (fst s) (fst ?s)"
    using bubble_down_loop_frame [OF k Suc.prems(2)] .
  have "index_consistent n ?s"
    using bubble_down_loop_index [OF Suc.prems(3) k Suc.prems(2)] .
  moreover have "n \<le> length (fst ?s)"
    using same_entries_length [OF f] Suc.prems(2) by simp
  ultimately have "index_consistent n (make_loop_unbounded cmp (int n) (int k - 1) ?s) \<and>
     same_entries n (fst ?s) (fst (make_loop_unbounded cmp (int n) (int k - 1) ?s))"
    using Suc.IH [of ?s] k by simp
  moreover have "make_loop_unbounded cmp (int n) (int (Suc k) - 1) s = make_loop_unbounded cmp (int n) (int k - 1) ?s"
    using make_loop_step [of cmp "int n" k s] k by (simp add: bubble_down_nat)
  ultimately show ?case using f same_entries_trans by fastforce
qed

lemma make_unfold: "0 < n \<Longrightarrow> make_unbounded cmp (int n) s = make_loop_unbounded cmp (int n) (int n - 1) s"
  by (simp add: make_unbounded_def)

lemma filter_less_upt: "filter (\<lambda>i. i < m) [0..<k] = [0..<min m k]"
proof (induction k)
  case 0
  then show ?case by simp
next
  case (Suc k)
  show ?case
  proof (cases "k < m")
    case True
    then have "min m (Suc k) = Suc k" "min m k = k" by simp_all
    then show ?thesis using Suc True by simp
  next
    case False
    then have "min m (Suc k) = m" "min m k = m" by simp_all
    then show ?thesis using Suc False by simp
  qed
qed

lemma internal_slots_upt: "internal_slots n = [0..<nat (n div 2)]"
proof -
  have "(2 * int i + 1 < n) = (i < nat (n div 2))" for i by (cases "0 \<le> n") auto
  then have "internal_slots n = filter (\<lambda>i. i < nat (n div 2)) [0..<nat n]"
    by (simp add: internal_slots_def)
  also have "\<dots> = [0..<min (nat (n div 2)) (nat n)]" by (rule filter_less_upt)
  also have "min (nat (n div 2)) (nat n) = nat (n div 2)" by (cases "0 \<le> n") auto
  finally show ?thesis .
qed

lemma bubble_down_loop_leaf: "n \<le> 2 * i + 1 \<Longrightarrow> bubble_down_loop_unbounded cmp n i s = s"
proof -
  assume "n \<le> 2 * i + 1"
  then have "child_scan_unbounded cmp n i (fst s) (2 * i + 1) i = i"
    by (subst child_scan_unbounded.simps) simp
  then show ?thesis by (subst bubble_down_loop_unbounded.simps) (simp add: Let_def)
qed

lemma make_loop_fold:
  "make_loop_unbounded cmp N (int k - 1) s = fold (\<lambda>i. bubble_down_unbounded cmp N (int i)) (rev [0..<k]) s"
proof (induction k arbitrary: s)
  case 0
  then show ?case by (simp only: make_loop_stop) simp
next
  case (Suc k)
  have "make_loop_unbounded cmp N (int (Suc k) - 1) s =
        make_loop_unbounded cmp N (int k - 1) (bubble_down_unbounded cmp N (int k) s)"
    using make_loop_step [of cmp N k s] by simp
  then show ?case using Suc.IH by simp
qed

lemma make_loop_leaves:
  "nat (int n div 2) \<le> k \<Longrightarrow> k \<le> n \<Longrightarrow>
   make_loop_unbounded cmp (int n) (int k - 1) s = make_loop_unbounded cmp (int n) (int (nat (int n div 2)) - 1) s"
proof (induction k)
  case 0
  then show ?case by simp
next
  case (Suc k)
  show ?case
  proof (cases "nat (int n div 2) = Suc k")
    case True
    then show ?thesis by simp
  next
    case False
    then have h: "nat (int n div 2) \<le> k" using Suc.prems by simp
    then have "n \<le> 2 * k + 1" by (simp add: nat_le_iff; arith)
    then have "bubble_down_unbounded cmp (int n) (int k) s = s"
      by (simp add: bubble_down_nat bubble_down_loop_leaf)
    then have "make_loop_unbounded cmp (int n) (int (Suc k) - 1) s = make_loop_unbounded cmp (int n) (int k - 1) s"
      using make_loop_step [of cmp "int n" k s] by simp
    then show ?thesis using Suc.IH [OF h] Suc.prems by simp
  qed
qed

lemma make_refines: "make_unbounded cmp n s = make_spec_unbounded cmp n s"
proof (cases "n \<le> 0")
  case True
  then show ?thesis by (simp add: make_unbounded_def make_spec_unbounded_def)
next
  case False
  define m where "m = nat n"
  have n: "n = int m" "0 < m" using False by (simp_all add: m_def)
  have "make_unbounded cmp n s = make_loop_unbounded cmp (int m) (int m - 1) s"
    using n by (simp add: make_unbounded_def)
  also have "\<dots> = make_loop_unbounded cmp (int m) (int (nat (int m div 2)) - 1) s"
  proof (rule make_loop_leaves)
    show "nat (int m div 2) \<le> m" by (simp add: nat_le_iff; arith)
  qed simp
  also have "\<dots> = fold (\<lambda>i. bubble_down_unbounded cmp (int m) (int i)) (rev [0..<nat (int m div 2)]) s"
    by (rule make_loop_fold)
  finally show ?thesis
    using n by (simp add: make_spec_unbounded_def internal_slots_upt)
qed

subsection \<open>Facts about \<open>sort_heap_unbounded\<close>\<close>

lemma sort_heap_Suc:
  "sort_heap_unbounded cmp (int (Suc n)) s = sort_heap_unbounded cmp (int n) (pop_unbounded cmp (int (Suc n)) s)"
  by (subst sort_heap_unbounded.simps) simp

lemma sort_heap_stop: "n \<le> 0 \<Longrightarrow> sort_heap_unbounded cmp n s = s"
  by (subst sort_heap_unbounded.simps) simp

lemma sort_heap_correct:
  assumes "strict_weak_order cmp"
  shows "n \<le> length (fst s) \<Longrightarrow> heap_property cmp n (fst s) \<Longrightarrow> index_consistent n s \<Longrightarrow>
     same_entries n (fst s) (fst (sort_heap_unbounded cmp (int n) s)) \<and>
     (\<forall>i j. i < j \<and> j < n \<longrightarrow>
        \<not> cmp (fst (sort_heap_unbounded cmp (int n) s) ! j) (fst (sort_heap_unbounded cmp (int n) s) ! i)) \<and>
     index_consistent 0 (sort_heap_unbounded cmp (int n) s)"
proof (induction n arbitrary: s)
  case 0
  then show ?case by (simp add: sort_heap_stop same_entries_refl)
next
  case (Suc n)
  let ?s1 = "pop_unbounded cmp (int (Suc n)) s"
  let ?s' = "sort_heap_unbounded cmp (int n) ?s1"
  have p: "0 < Suc n" by simp
  have f1: "same_entries (Suc n) (fst s) (fst ?s1)"
    using pop_frame [OF p Suc.prems(1)] .
  have l1: "length (fst ?s1) = length (fst s)"
    using same_entries_length [OF f1] .
  have h1: "heap_property cmp n (fst ?s1)"
    using pop_heap [OF assms p Suc.prems(1,2)] by simp
  have i1: "index_consistent n ?s1"
    using pop_index [OF p Suc.prems(1,3), of cmp] by simp
  have n1: "n \<le> length (fst ?s1)" using l1 Suc.prems(1) by simp
  have IH: "same_entries n (fst ?s1) (fst ?s')"
    "\<forall>i j. i < j \<and> j < n \<longrightarrow> \<not> cmp (fst ?s' ! j) (fst ?s' ! i)"
    "index_consistent 0 ?s'"
    using Suc.IH [OF n1 h1 i1] by simp_all
  have "same_entries (Suc n) (fst ?s1) (fst ?s')"
    using same_entries_Suc [OF IH(1)] l1 Suc.prems(1) by simp
  with f1 have a: "same_entries (Suc n) (fst s) (fst ?s')"
    by (rule same_entries_trans)
  have last: "fst ?s' ! n = fst s ! 0"
    using IH(1) pop_last [OF p Suc.prems(1), of cmp] by (simp add: same_entries_def)
  have b: "\<not> cmp (fst ?s' ! j) (fst ?s' ! i)" if "i < j" "j < Suc n" for i j
  proof (cases "j = n")
    case True
    have "i < n" using that True by simp
    then obtain l where l: "l < n" "fst ?s' ! i = fst ?s1 ! l"
      using same_entries_nth [OF IH(1) _ n1, of i] by blast
    have "\<not> cmp (fst s ! 0) (fst ?s1 ! l)"
      using pop_root_max [OF assms p Suc.prems(1,2), of l] l by simp
    then show ?thesis using True last l by simp
  next
    case False
    then show ?thesis using IH(2) that by simp
  qed
  show ?case
    unfolding sort_heap_Suc using a b IH(3) by blast
qed

lemma index_consistent_0: "index_consistent 0 s \<Longrightarrow> snd s k = - 1"
  by (simp add: index_consistent_def)

subsection \<open>The concrete comparator and states\<close>

lemma std_less_swo: "strict_weak_order (std_less :: ('p::linorder, 'k::linorder) compare)"
  unfolding strict_weak_order_def std_less_def by auto

lemma all_less_4: "(\<forall>i. i < (4::nat) \<longrightarrow> P i) = (P 0 \<and> P 1 \<and> P 2 \<and> P 3)"
proof -
  have "i < 4 \<longleftrightarrow> i = 0 \<or> i = 1 \<or> i = 2 \<or> i = 3" for i :: nat by arith
  then show ?thesis by auto
qed

lemma all_less_3: "(\<forall>i. i < (3::nat) \<longrightarrow> P i) = (P 0 \<and> P 1 \<and> P 2)"
proof -
  have "i < 3 \<longleftrightarrow> i = 0 \<or> i = 1 \<or> i = 2" for i :: nat by arith
  then show ?thesis by auto
qed

lemma heap_property_less: "heap_property cmp n xs = (\<forall>i. i < n \<longrightarrow> 0 < i \<longrightarrow> \<not> cmp (xs ! ((i - 1) div 2)) (xs ! i))"
  unfolding heap_property_def by blast

lemma ex_heap: "heap_property std_less 4 ex_xs"
  by (simp add: heap_property_less all_less_4 ex_xs_def std_less_def)

lemma ex_heap3: "heap_property std_less 3 ex_xs"
  by (simp add: heap_property_less all_less_3 ex_xs_def std_less_def)

lemma ex_index: "index_consistent 4 (ex_xs, ex_idx)"
  by (simp add: index_consistent_def all_less_4 ex_xs_def ex_idx_def)

lemma ex_index3: "index_consistent 3 (ex_xs, ex_idx3)"
  by (simp add: index_consistent_def all_less_3 ex_xs_def ex_idx3_def)

lemma live_or_absent:
  assumes "index_consistent n (xs, idx)"
  shows "(\<exists>i. i < n \<and> snd (xs ! i) = key \<and> idx key = int i) \<or>
         ((\<forall>i. i < n \<longrightarrow> snd (xs ! i) \<noteq> key) \<and> idx key = - 1)"
proof (cases "\<exists>i. i < n \<and> snd (xs ! i) = key")
  case True
  then obtain i where "i < n" "snd (xs ! i) = key" by blast
  then show ?thesis using live_slot [OF assms] by blast
next
  case False
  then have "\<forall>i. i < n \<longrightarrow> snd (xs ! i) \<noteq> key" by blast
  then show ?thesis using assms by (simp add: index_consistent_def)
qed

lemma update_absent: "idx key = - 1 \<Longrightarrow> update_unbounded cmp n key v (xs, idx) = (False, (xs, idx))"
  by (simp add: update_unbounded_def)

lemma pop_key_absent_key: "idx key = - 1 \<Longrightarrow> pop_key_unbounded cmp n key (xs, idx) = (False, (xs, idx))"
  by (simp add: pop_key_unbounded_def)

lemma pop_empty: "pop_unbounded cmp (int 0) s = s"
  by (simp add: pop_unbounded_def)

lemma pop_key_last:
  assumes "strict_weak_order cmp" "0 < n" "n \<le> length xs" "idx key = int (n - 1)"
    "snd (xs ! (n - 1)) = key"
  shows "pop_key_unbounded cmp (int n) key (xs, idx) = (True, (xs, idx(key := - 1)))"
proof -
  have l: "n - 1 < length xs" using assms(2,3) by arith
  have x: "xs[n - 1 := xs ! (n - 1), n - 1 := xs ! (n - 1)] = xs" by simp
  have "snd (swap_entries (n - 1) (n - 1) (xs, idx)) = idx"
    using snd_swap_entries [OF l l, of idx] by (simp add: swap_cells_def)
  moreover have "fst (swap_entries (n - 1) (n - 1) (xs, idx)) = xs"
    using fst_swap_entries [of "n - 1" "n - 1" xs idx] x by simp
  ultimately have s: "swap_entries (n - 1) (n - 1) (xs, idx) = (xs, idx)"
    by (simp add: prod_eq_iff)
  have "\<not> cmp (xs ! (n - 1)) (xs ! (n - 1))" using swo_irrefl [OF assms(1)] .
  then show ?thesis
    unfolding pop_key_unfold [where idx = idx and key = key, OF assms(2,4)] s Let_def
    using assms(5) by simp
qed

lemma sort_heap_frame:
  "m \<le> length (fst s) \<Longrightarrow> same_entries m (fst s) (fst (sort_heap_unbounded cmp (int m) s))"
proof (induction m arbitrary: s)
  case 0
  then show ?case by (simp add: sort_heap_stop same_entries_refl)
next
  case (Suc m)
  let ?s1 = "pop_unbounded cmp (int (Suc m)) s"
  have p: "0 < Suc m" by simp
  have f1: "same_entries (Suc m) (fst s) (fst ?s1)"
    using pop_frame [OF p Suc.prems] .
  have l1: "length (fst ?s1) = length (fst s)"
    using same_entries_length [OF f1] .
  then have "same_entries m (fst ?s1) (fst (sort_heap_unbounded cmp (int m) ?s1))"
    using Suc.IH [of ?s1] Suc.prems by simp
  then have "same_entries (Suc m) (fst ?s1) (fst (sort_heap_unbounded cmp (int m) ?s1))"
    using same_entries_Suc l1 Suc.prems by fastforce
  with f1 show ?case
    unfolding sort_heap_Suc by (rule same_entries_trans)
qed

lemma make_loop_frame:
  "k \<le> n \<Longrightarrow> n \<le> length (fst s) \<Longrightarrow>
     same_entries n (fst s) (fst (make_loop_unbounded cmp (int n) (int k - 1) s))"
proof (induction k arbitrary: s)
  case 0
  then show ?case by (simp only: make_loop_stop same_entries_refl)
next
  case (Suc k)
  let ?s = "bubble_down_loop_unbounded cmp n k s"
  have k: "k < n" using Suc.prems by simp
  have f: "same_entries n (fst s) (fst ?s)"
    using bubble_down_loop_frame [OF k Suc.prems(2)] .
  have "n \<le> length (fst ?s)"
    using same_entries_length [OF f] Suc.prems(2) by simp
  then have "same_entries n (fst ?s) (fst (make_loop_unbounded cmp (int n) (int k - 1) ?s))"
    using Suc.IH [of ?s] k by simp
  moreover have "make_loop_unbounded cmp (int n) (int (Suc k) - 1) s = make_loop_unbounded cmp (int n) (int k - 1) ?s"
    using make_loop_step [of cmp "int n" k s] k by (simp add: bubble_down_nat)
  ultimately show ?case using f same_entries_trans by fastforce
qed

lemma make_nat: "make_unbounded cmp (int n) s = make_loop_unbounded cmp (int n) (int n - 1) s"
proof (cases "n = 0")
  case True
  then show ?thesis using make_loop_stop [of cmp "int 0" s] by (simp add: make_unbounded_def)
next
  case False
  then show ?thesis by (simp add: make_unbounded_def)
qed

lemma all_less_5: "(\<forall>i. i < (5::nat) \<longrightarrow> P i) = (P 0 \<and> P 1 \<and> P 2 \<and> P 3 \<and> P 4)"
proof -
  have "i < 5 \<longleftrightarrow> i = 0 \<or> i = 1 \<or> i = 2 \<or> i = 3 \<or> i = 4" for i :: nat by arith
  then show ?thesis by auto
qed

lemma ex_unordered_index: "index_consistent 5 (ex_unordered, ex_unordered_idx)"
  by (simp add: index_consistent_def all_less_5 ex_unordered_def ex_unordered_idx_def)

subsection \<open>The operations over unbounded slots keep the invariants\<close>

lemma operations_preserve_invariants_unbounded:
  assumes "strict_weak_order cmp" "n \<le> length xs"
  shows
    "(0 < n \<and> heap_property cmp (n - 1) xs \<and> index_consistent (n - 1) (xs, idx) \<and>
      (\<forall>i. i < n - 1 \<longrightarrow> snd (xs ! i) \<noteq> snd (xs ! (n - 1))) \<longrightarrow>
        heap_property cmp n (fst (push cmp (int n) (xs, idx))) \<and>
        index_consistent n (push cmp (int n) (xs, idx))) \<and>
     (heap_property cmp n xs \<and> index_consistent n (xs, idx) \<longrightarrow>
        heap_property cmp (n - 1) (fst (pop_unbounded cmp (int n) (xs, idx))) \<and>
        index_consistent (n - 1) (pop_unbounded cmp (int n) (xs, idx)) \<and>
        heap_property cmp n (fst (snd (update_unbounded cmp (int n) key v (xs, idx)))) \<and>
        index_consistent n (snd (update_unbounded cmp (int n) key v (xs, idx))) \<and>
        (if fst (pop_key_unbounded cmp (int n) key (xs, idx))
         then heap_property cmp (n - 1) (fst (snd (pop_key_unbounded cmp (int n) key (xs, idx)))) \<and>
              index_consistent (n - 1) (snd (pop_key_unbounded cmp (int n) key (xs, idx)))
         else heap_property cmp n (fst (snd (pop_key_unbounded cmp (int n) key (xs, idx)))) \<and>
              index_consistent n (snd (pop_key_unbounded cmp (int n) key (xs, idx)))))"
proof (intro conjI impI)
  assume a: "0 < n \<and> heap_property cmp (n - 1) xs \<and> index_consistent (n - 1) (xs, idx) \<and>
      (\<forall>i. i < n - 1 \<longrightarrow> snd (xs ! i) \<noteq> snd (xs ! (n - 1)))"
  show "heap_property cmp n (fst (push cmp (int n) (xs, idx)))"
    using push_heap [OF assms(1) _ assms(2)] a by blast
  show "index_consistent n (push cmp (int n) (xs, idx))"
    using push_index [OF _ assms(2)] a by blast
next
  assume a: "heap_property cmp n xs \<and> index_consistent n (xs, idx)"
  then have h: "heap_property cmp n xs" and ic: "index_consistent n (xs, idx)" by simp_all
  show "heap_property cmp (n - 1) (fst (pop_unbounded cmp (int n) (xs, idx)))"
  proof (cases "n = 0")
    case True
    then show ?thesis using h pop_empty [of cmp "(xs, idx)"] by simp
  next
    case False
    then show ?thesis using pop_heap [OF assms(1), of n "(xs, idx)"] assms(2) h by simp
  qed
  show "index_consistent (n - 1) (pop_unbounded cmp (int n) (xs, idx))"
  proof (cases "n = 0")
    case True
    then show ?thesis using ic pop_empty [of cmp "(xs, idx)"] by simp
  next
    case False
    then show ?thesis using pop_index [of n "(xs, idx)" cmp] assms(2) ic by simp
  qed
  consider (live) i where "i < n" "snd (xs ! i) = key" "idx key = int i" | (absent) "idx key = - 1"
    using live_or_absent [OF ic, of key] by blast
  note cases = this
  show "heap_property cmp n (fst (snd (update_unbounded cmp (int n) key v (xs, idx))))"
  proof (cases rule: cases)
    case live
    then show ?thesis
      using update_heap [where idx = idx and key = key, OF assms(1) _ assms(2) h live(3) live(1)]
      by simp
  next
    case absent
    then show ?thesis using h by (simp add: update_absent)
  qed
  show "index_consistent n (snd (update_unbounded cmp (int n) key v (xs, idx)))"
  proof (cases rule: cases)
    case live
    then show ?thesis
      using update_index [where idx = idx and key = key, OF _ assms(2) ic live(3)] by simp
  next
    case absent
    then show ?thesis using ic by (simp add: update_absent)
  qed
  show "if fst (pop_key_unbounded cmp (int n) key (xs, idx))
         then heap_property cmp (n - 1) (fst (snd (pop_key_unbounded cmp (int n) key (xs, idx)))) \<and>
              index_consistent (n - 1) (snd (pop_key_unbounded cmp (int n) key (xs, idx)))
         else heap_property cmp n (fst (snd (pop_key_unbounded cmp (int n) key (xs, idx)))) \<and>
              index_consistent n (snd (pop_key_unbounded cmp (int n) key (xs, idx)))"
  proof (cases rule: cases)
    case live
    have n: "0 < n" using live by simp
    have "fst (pop_key_unbounded cmp (int n) key (xs, idx))"
      using pop_key_flag [where idx = idx and key = key, OF n live(3)] .
    moreover have "heap_property cmp (n - 1) (fst (snd (pop_key_unbounded cmp (int n) key (xs, idx))))"
      using pop_key_heap [where idx = idx and key = key, OF assms(1) n assms(2) h live(3) live(1)] .
    moreover have "index_consistent (n - 1) (snd (pop_key_unbounded cmp (int n) key (xs, idx)))"
      using pop_key_index [where idx = idx and key = key, OF n assms(2) ic live(3) live(1)] .
    ultimately show ?thesis by simp
  next
    case absent
    then show ?thesis using h ic by (simp add: pop_key_absent_key)
  qed
qed

lemma sort_orders_range_and_clears_index_unbounded:
  assumes "strict_weak_order cmp" "n \<le> length xs" "heap_property cmp n xs"
    "index_consistent n (xs, idx)"
  shows
    "mset (take n (fst (sort_heap_unbounded cmp (int n) (xs, idx)))) = mset (take n xs) \<and>
     length (fst (sort_heap_unbounded cmp (int n) (xs, idx))) = length xs \<and>
     (\<forall>j. n \<le> j \<longrightarrow> fst (sort_heap_unbounded cmp (int n) (xs, idx)) ! j = xs ! j) \<and>
     (\<forall>i j. i < j \<and> j < n \<longrightarrow>
        \<not> cmp (fst (sort_heap_unbounded cmp (int n) (xs, idx)) ! j)
               (fst (sort_heap_unbounded cmp (int n) (xs, idx)) ! i)) \<and>
     (\<forall>i. i < n \<longrightarrow>
        \<not> cmp (fst (sort_heap_unbounded cmp (int n) (xs, idx)) ! (n - 1))
               (fst (sort_heap_unbounded cmp (int n) (xs, idx)) ! i)) \<and>
     (\<forall>i. i < n \<longrightarrow> snd (sort_heap_unbounded cmp (int n) (xs, idx)) (snd (xs ! i)) = - 1)"
proof -
  let ?s' = "sort_heap_unbounded cmp (int n) (xs, idx)"
  have r: "same_entries n xs (fst ?s')"
    "\<forall>i j. i < j \<and> j < n \<longrightarrow> \<not> cmp (fst ?s' ! j) (fst ?s' ! i)"
    "index_consistent 0 ?s'"
    using sort_heap_correct [OF assms(1), of n "(xs, idx)"] assms(2,3,4) by simp_all
  have a: "mset (take n (fst ?s')) = mset (take n xs)" "length (fst ?s') = length xs"
    "\<forall>j. n \<le> j \<longrightarrow> fst ?s' ! j = xs ! j"
    using r(1) by (simp_all add: same_entries_def)
  have b: "\<not> cmp (fst ?s' ! (n - 1)) (fst ?s' ! i)" if "i < n" for i
  proof (cases "i = n - 1")
    case True
    then show ?thesis using swo_irrefl [OF assms(1)] by simp
  next
    case False
    then have "i < n - 1 \<and> n - 1 < n" using that by simp
    then show ?thesis using r(2) by blast
  qed
  have c: "snd ?s' k = - 1" for k
    using index_consistent_0 [OF r(3)] .
  show ?thesis using a r(2) b c by blast
qed

lemma pop_extracts_root_unbounded:
  assumes "strict_weak_order cmp" "0 < n" "n \<le> length xs"
    "heap_property cmp n xs" "index_consistent n (xs, idx)"
  shows
    "pop_unbounded cmp (int n) (xs, idx) =
       bubble_down_unbounded cmp (int (n - 1)) 0
         (xs[0 := xs ! (n - 1), n - 1 := xs ! 0],
          idx(snd (xs ! (n - 1)) := 0, snd (xs ! 0) := - 1)) \<and>
     heap_property cmp (n - 1) (fst (pop_unbounded cmp (int n) (xs, idx))) \<and>
     (\<forall>j. j < n - 1 \<longrightarrow> \<not> cmp (xs ! 0) (fst (pop_unbounded cmp (int n) (xs, idx)) ! j))"
proof (intro conjI allI impI)
  let ?ys = "xs[0 := xs ! (n - 1), n - 1 := xs ! 0]"
  have l: "0 < length xs" "n - 1 < length xs" using assms(2,3) by arith+
  have i0: "idx (snd (xs ! 0)) = 0"
    using live_slot [OF assms(5) assms(2)] by simp
  have il: "idx (snd (xs ! (n - 1))) = int (n - 1)"
    using live_slot [OF assms(5), of "n - 1"] assms(2) by simp
  have y: "?ys ! (n - 1) = xs ! 0" using l by simp
  have s: "swap_entries 0 (n - 1) (xs, idx) =
      (?ys, swap_cells idx (snd (xs ! (n - 1))) (snd (xs ! 0)))"
    using fst_swap_entries [of 0 "n - 1" xs idx] snd_swap_entries [OF l, of idx]
    by (simp add: prod_eq_iff)
  have e: "(swap_cells idx (snd (xs ! (n - 1))) (snd (xs ! 0)))(snd (xs ! 0) := - 1) =
        idx(snd (xs ! (n - 1)) := 0, snd (xs ! 0) := - 1)"
    by (simp add: swap_cells_def i0)
  have "pop_unbounded cmp (int n) (xs, idx) =
       bubble_down_unbounded cmp (int (n - 1)) (int 0)
         (?ys, (swap_cells idx (snd (xs ! (n - 1))) (snd (xs ! 0)))(snd (?ys ! (n - 1)) := - 1))"
    unfolding pop_unfold [OF assms(2)] s by (simp only: fst_conv snd_conv)
  then show "pop_unbounded cmp (int n) (xs, idx) =
       bubble_down_unbounded cmp (int (n - 1)) 0
         (?ys, idx(snd (xs ! (n - 1)) := 0, snd (xs ! 0) := - 1))"
    by (simp only: y e of_nat_0)
next
  show "heap_property cmp (n - 1) (fst (pop_unbounded cmp (int n) (xs, idx)))"
    using pop_heap [OF assms(1,2), of "(xs, idx)"] assms(3,4) by simp
next
  fix j
  assume "j < n - 1"
  then show "\<not> cmp (xs ! 0) (fst (pop_unbounded cmp (int n) (xs, idx)) ! j)"
    using pop_root_max [OF assms(1,2), of "(xs, idx)" j] assms(3,4) by simp
qed

lemma pop_key_removes_live_key_unbounded:
  assumes "strict_weak_order cmp" "n \<le> length xs" "heap_property cmp n xs"
    "index_consistent n (xs, idx)" "i < n" "snd (xs ! i) = key"
  shows
    "fst (pop_key_unbounded cmp (int n) key (xs, idx)) \<and>
     mset (take (n - 1) (fst (snd (pop_key_unbounded cmp (int n) key (xs, idx))))) =
       mset (take n xs) - {#xs ! i#} \<and>
     size (mset (take (n - 1) (fst (snd (pop_key_unbounded cmp (int n) key (xs, idx)))))) + 1 =
       size (mset (take n xs)) \<and>
     snd (snd (pop_key_unbounded cmp (int n) key (xs, idx))) key = - 1 \<and>
     heap_property cmp (n - 1) (fst (snd (pop_key_unbounded cmp (int n) key (xs, idx)))) \<and>
     index_consistent (n - 1) (snd (pop_key_unbounded cmp (int n) key (xs, idx))) \<and>
     (i = n - 1 \<longrightarrow> snd (pop_key_unbounded cmp (int n) key (xs, idx)) = (xs, idx(key := - 1)))"
proof -
  have n: "0 < n" using assms(5) by simp
  have k: "idx key = int i" using live_slot [OF assms(4,5,6)] .
  let ?r = "pop_key_unbounded cmp (int n) key (xs, idx)"
  have a: "fst ?r"
    using pop_key_flag [where idx = idx and key = key, OF n k] .
  have b: "mset (take (n - 1) (fst (snd ?r))) = mset (take n xs) - {#xs ! i#}"
    using pop_key_mset [where idx = idx and key = key, OF n assms(2) k assms(5)] .
  have "xs ! i \<in># mset (take n xs)"
    using assms(2,5) by (metis in_set_conv_nth length_take min.absorb2 nth_take set_mset_mset)
  then have c: "size (mset (take (n - 1) (fst (snd ?r)))) + 1 = size (mset (take n xs))"
    unfolding b using assms(2) n by (simp add: size_Diff_singleton min_def)
  have d: "snd (snd ?r) key = - 1"
    using pop_key_absent [where idx = idx and key = key, OF n assms(2,4) k assms(5,6)] .
  have e: "heap_property cmp (n - 1) (fst (snd ?r))"
    using pop_key_heap [where idx = idx and key = key, OF assms(1) n assms(2,3) k assms(5)] .
  have f: "index_consistent (n - 1) (snd ?r)"
    using pop_key_index [where idx = idx and key = key, OF n assms(2,4) k assms(5)] .
  have g: "snd ?r = (xs, idx(key := - 1))" if "i = n - 1"
    using pop_key_last [where idx = idx and key = key, OF assms(1) n assms(2)] k assms(6) that
    by simp
  show ?thesis using a b c d e f g by blast
qed

lemma make_heapifies_as_specified_unbounded:
  assumes "strict_weak_order cmp" "n \<le> length xs"
  shows
    "make_unbounded cmp N s = make_spec_unbounded cmp N s \<and>
     (N \<le> 0 \<longrightarrow> make_unbounded cmp N s = s) \<and>
     heap_property cmp n (fst (make_unbounded cmp (int n) (xs, idx))) \<and>
     mset (take n (fst (make_unbounded cmp (int n) (xs, idx)))) = mset (take n xs) \<and>
     (index_consistent n (xs, idx) \<longrightarrow> index_consistent n (make_unbounded cmp (int n) (xs, idx)))"
proof -
  have a: "make_unbounded cmp N s = make_spec_unbounded cmp N s" by (rule make_refines)
  have b: "N \<le> 0 \<longrightarrow> make_unbounded cmp N s = s" by (simp add: make_unbounded_def)
  have "\<not> (0 < j \<and> j < n \<and> n \<le> (j - 1) div 2)" for j
    using parent_less [of j] by auto
  then have "heap_from cmp n n (fst (xs, idx))" unfolding heap_from_def by blast
  then have c: "heap_property cmp n (fst (make_unbounded cmp (int n) (xs, idx)))"
    unfolding make_nat using make_loop_heap [OF assms(1), of n n "(xs, idx)"] assms(2) by simp
  have "same_entries n xs (fst (make_unbounded cmp (int n) (xs, idx)))"
    unfolding make_nat using make_loop_frame [of n n "(xs, idx)" cmp] assms(2) by simp
  then have d: "mset (take n (fst (make_unbounded cmp (int n) (xs, idx)))) = mset (take n xs)"
    by (simp add: same_entries_def)
  have e: "index_consistent n (make_unbounded cmp (int n) (xs, idx))" if "index_consistent n (xs, idx)"
    unfolding make_nat using make_loop_index [of n n "(xs, idx)" cmp] assms(2) that by simp
  show ?thesis using a b c d e by blast
qed

lemma pop_keeps_extracted_entry_unbounded:
  assumes "0 < n" "n \<le> length xs" "index_consistent n (xs, idx)"
  shows
    "fst (pop_unbounded cmp (int n) (xs, idx)) ! (n - 1) = xs ! 0 \<and>
     snd (pop_unbounded cmp (int n) (xs, idx)) (snd (xs ! 0)) = - 1 \<and>
     length (fst (pop_unbounded cmp (int n) (xs, idx))) = length xs \<and>
     sort_heap_unbounded cmp (int n) (xs, idx) = sort_heap_unbounded cmp (int (n - 1)) (pop_unbounded cmp (int n) (xs, idx)) \<and>
     fst (sort_heap_unbounded cmp (int n) (xs, idx)) ! (n - 1) = xs ! 0"
proof -
  let ?s1 = "pop_unbounded cmp (int n) (xs, idx)"
  have a: "fst ?s1 ! (n - 1) = xs ! 0"
    using pop_last [OF assms(1), of "(xs, idx)" cmp] assms(2) by simp
  have b: "snd ?s1 (snd (xs ! 0)) = - 1"
    using pop_extracted_absent [OF assms(1), of "(xs, idx)" cmp] assms(2,3) by simp
  have c: "length (fst ?s1) = length xs"
    using same_entries_length [OF pop_frame [OF assms(1), of "(xs, idx)" cmp]] assms(2) by simp
  have "sort_heap_unbounded cmp (int (Suc (n - 1))) (xs, idx) =
        sort_heap_unbounded cmp (int (n - 1)) (pop_unbounded cmp (int (Suc (n - 1))) (xs, idx))"
    by (rule sort_heap_Suc)
  then have d: "sort_heap_unbounded cmp (int n) (xs, idx) = sort_heap_unbounded cmp (int (n - 1)) ?s1"
    using assms(1) by simp
  have "same_entries (n - 1) (fst ?s1) (fst (sort_heap_unbounded cmp (int (n - 1)) ?s1))"
    using sort_heap_frame [of "n - 1" ?s1 cmp] c assms(2) by simp
  then have "fst (sort_heap_unbounded cmp (int (n - 1)) ?s1) ! (n - 1) = fst ?s1 ! (n - 1)"
    by (simp add: same_entries_def)
  then have e: "fst (sort_heap_unbounded cmp (int n) (xs, idx)) ! (n - 1) = xs ! 0"
    using a d by simp
  show ?thesis using a b c d e by blast
qed

section \<open>The operations of the source on ranges of at most \<open>2^30\<close> slots\<close>

text \<open>In a range of at most \<open>exact_slots\<close> slots no \<open>int\<close> expression of
  \<open>detail::bubble_down\<close> overflows: for a slot \<open>i\<close> of the range \<open>2 * i + 1\<close> is at most
  \<open>INT_MAX\<close>, and \<open>2 * i + 2\<close> and \<open>++c\<close> are computed only for a child \<open>c\<close> inside the
  range. The sift then returns a state, the one that the sift over unbounded slots
  computes, and so do the operations, given that the slot read from the index map lies
  inside the storage.\<close>

declare child_scan.simps [simp del]

declare bubble_down_loop.simps [simp del]

declare make_loop.simps [simp del]

declare sort_heap.simps [simp del]

lemma child_scan_exact:
  "n \<le> exact_slots \<Longrightarrow> 2 * i + 1 \<le> c \<Longrightarrow>
   child_scan cmp n i xs c m = Inr (child_scan_unbounded cmp n i xs c m)"
proof (induction cmp n i xs c m rule: child_scan_unbounded.induct)
  case (1 cmp n i xs c m)
  show ?case
  proof (cases "c < n")
    case True
    then have b: "\<not> int_max < 2 * i + 2" "\<not> int_max < c + 1"
      using "1.prems" by (simp_all add: exact_slots_def int_max_def)
    show ?thesis
    proof (cases "c \<le> 2 * i + 2")
      case le: True
      have "child_scan cmp n i xs (c + 1) (if cmp (xs ! m) (xs ! c) then c else m) =
            Inr (child_scan_unbounded cmp n i xs (c + 1) (if cmp (xs ! m) (xs ! c) then c else m))"
        using "1.IH" True le "1.prems" by simp
      then show ?thesis
        using True le b by (subst child_scan.simps, subst child_scan_unbounded.simps) simp
    next
      case False
      then show ?thesis
        using True b by (subst child_scan.simps, subst child_scan_unbounded.simps) simp
    qed
  next
    case False
    then show ?thesis
      by (subst child_scan.simps, subst child_scan_unbounded.simps) simp
  qed
qed

lemma bubble_down_loop_exact:
  "n \<le> exact_slots \<Longrightarrow>
   bubble_down_loop cmp n i s = Inr (bubble_down_loop_unbounded cmp n i s)"
proof (induction cmp n i s rule: bubble_down_loop_unbounded.induct)
  case (1 cmp n i s)
  show ?case
  proof (cases "i < n")
    case True
    then have b: "\<not> int_max < 2 * i + 1"
      using "1.prems" by (simp add: exact_slots_def int_max_def)
    define m where "m = child_scan_unbounded cmp n i (fst s) (2 * i + 1) i"
    have c: "child_scan cmp n i (fst s) (2 * i + 1) i = Inr m"
      unfolding m_def using child_scan_exact [OF "1.prems", of i "2 * i + 1"] by simp
    show ?thesis
    proof (cases "m = i")
      case eq: True
      then show ?thesis
        using True b c m_def
        by (subst bubble_down_loop.simps, subst bubble_down_loop_unbounded.simps) (simp add: Let_def)
    next
      case False
      have "bubble_down_loop cmp n m (swap_entries i m s) =
            Inr (bubble_down_loop_unbounded cmp n m (swap_entries i m s))"
        using "1.IH" [OF True m_def False "1.prems"] .
      then show ?thesis
        using True b c False m_def
        by (subst bubble_down_loop.simps, subst bubble_down_loop_unbounded.simps) (simp add: Let_def)
    qed
  next
    case False
    then show ?thesis
      by (subst bubble_down_loop.simps, subst bubble_down_loop_unbounded.simps) simp
  qed
qed

lemma bubble_down_exact:
  "n \<le> int exact_slots \<Longrightarrow>
   bubble_down cmp n it s = Inr (bubble_down_unbounded cmp n it s)"
  by (simp add: bubble_down_def bubble_down_unbounded_def bubble_down_loop_exact nat_le_iff)

lemma pop_exact:
  "n \<le> int exact_slots \<Longrightarrow> pop cmp n s = Inr (pop_unbounded cmp n s)"
  by (simp add: pop_def pop_unbounded_def Let_def bubble_down_exact split: prod.split)

lemma make_loop_exact:
  "n \<le> int exact_slots \<Longrightarrow>
   make_loop cmp n it s = Inr (make_loop_unbounded cmp n it s)"
proof (induction cmp n it s rule: make_loop_unbounded.induct)
  case (1 cmp n it s)
  show ?case
  proof (cases "it \<ge> 0")
    case True
    then show ?thesis
      using "1.IH" [OF True "1.prems"] bubble_down_exact [OF "1.prems", of cmp it s]
      by (subst make_loop.simps, subst make_loop_unbounded.simps) simp
  next
    case False
    then show ?thesis
      by (subst make_loop.simps, subst make_loop_unbounded.simps) simp
  qed
qed

lemma make_exact:
  "n \<le> int exact_slots \<Longrightarrow> make cmp n s = Inr (make_unbounded cmp n s)"
  by (simp add: make_def make_unbounded_def make_loop_exact)

lemma sort_heap_exact:
  "n \<le> int exact_slots \<Longrightarrow> sort_heap cmp n s = Inr (sort_heap_unbounded cmp n s)"
proof (induction cmp n s rule: sort_heap_unbounded.induct)
  case (1 cmp n s)
  show ?case
  proof (cases "0 < n")
    case True
    have "n - 1 \<le> int exact_slots" using "1.prems" by simp
    then show ?thesis
      using "1.IH" [OF True] pop_exact [OF "1.prems", of cmp s] True
      by (subst sort_heap.simps, subst sort_heap_unbounded.simps) simp
  next
    case False
    then show ?thesis
      by (subst sort_heap.simps, subst sort_heap_unbounded.simps) simp
  qed
qed

lemma update_exact:
  "n \<le> int exact_slots \<Longrightarrow> idx key = - 1 \<or> (0 \<le> idx key \<and> idx key < int (length xs)) \<Longrightarrow>
   update cmp n key v (xs, idx) = Inr (update_unbounded cmp n key v (xs, idx))"
  by (auto simp add: update_def update_unbounded_def Let_def bubble_down_exact)

lemma pop_key_exact:
  "n \<le> int exact_slots \<Longrightarrow> idx key = - 1 \<or> (0 \<le> idx key \<and> idx key < int (length xs)) \<Longrightarrow>
   pop_key cmp n key (xs, idx) = Inr (pop_key_unbounded cmp n key (xs, idx))"
  by (auto simp add: pop_key_def pop_key_unbounded_def Let_def bubble_down_exact split: prod.split)

lemma fold_exact:
  "n \<le> int exact_slots \<Longrightarrow>
   fold (\<lambda>i r. case r of Inl f \<Rightarrow> Inl f | Inr s' \<Rightarrow> bubble_down cmp n (int i) s') ks (Inr s) =
   Inr (fold (\<lambda>i. bubble_down_unbounded cmp n (int i)) ks s)"
  by (induction ks arbitrary: s) (simp_all add: bubble_down_exact)

lemma make_spec_exact:
  "n \<le> int exact_slots \<Longrightarrow> make_spec cmp n s = Inr (make_spec_unbounded cmp n s)"
  by (simp add: make_spec_def make_spec_unbounded_def fold_exact)

lemma index_in_storage:
  assumes "index_consistent n (xs, idx)" "n \<le> length xs"
  shows "idx key = - 1 \<or> (0 \<le> idx key \<and> idx key < int (length xs))"
  using live_or_absent [OF assms(1), of key] assms(2) by auto

lemma exact_int: "n \<le> exact_slots \<Longrightarrow> int n \<le> int exact_slots"
  by simp



lemma sort_heap_source_stop: "n \<le> 0 \<Longrightarrow> sort_heap cmp n s = Inr s"
  by (subst sort_heap.simps) simp

lemma update_source_unfold:
  assumes "0 < n" "idx key = int i" "i < length xs"
  shows "update cmp (int n) key v (xs, idx) =
     (if cmp (xs[i := (v, snd (xs ! i))] ! i) (xs ! i)
        then (case bubble_down cmp (int n) (int i) (xs[i := (v, snd (xs ! i))], idx) of
                Inl f \<Rightarrow> Inl f
              | Inr s' \<Rightarrow> Inr (True, s'))
      else if cmp (xs ! i) (xs[i := (v, snd (xs ! i))] ! i)
        then Inr (True, bubble_up cmp (int n) (int i) (xs[i := (v, snd (xs ! i))], idx))
      else Inr (True, (xs[i := (v, snd (xs ! i))], idx)))"
  using assms(1,3) by (simp add: update_def Let_def assms(2))

lemma update_source_outside:
  assumes "0 < n" "idx key = int i" "length xs \<le> i"
  shows "update cmp (int n) key v (xs, idx) = Inl OutOfStorage"
  using assms(1,3) by (simp add: update_def Let_def assms(2))

text \<open>Every operation returns on such a range, when the cell of the key given to
  \<open>update\<close> or \<open>pop_key\<close> holds \<open>-1\<close> or a slot of the storage.\<close>

theorem exact_operations_return:
  assumes "n \<le> int exact_slots"
    "idx key = - 1 \<or> (0 \<le> idx key \<and> idx key < int (length xs))"
  shows
    "(\<exists>s'. bubble_down cmp n it (xs, idx) = Inr s') \<and>
     (\<exists>s'. pop cmp n (xs, idx) = Inr s') \<and>
     (\<exists>s'. make cmp n (xs, idx) = Inr s') \<and>
     (\<exists>s'. sort_heap cmp n (xs, idx) = Inr s') \<and>
     (\<exists>r. update cmp n key v (xs, idx) = Inr r) \<and>
     (\<exists>r. pop_key cmp n key (xs, idx) = Inr r)"
  using bubble_down_exact [OF assms(1), of cmp it "(xs, idx)"]
    pop_exact [OF assms(1), of cmp "(xs, idx)"]
    make_exact [OF assms(1), of cmp "(xs, idx)"]
    sort_heap_exact [OF assms(1), of cmp "(xs, idx)"]
    update_exact [where idx = idx and key = key, OF assms, of cmp v]
    pop_key_exact [where idx = idx and key = key, OF assms, of cmp]
  by blast

text \<open>On such ranges the operations of the source keep the heap property and index
  consistency, as the operations over unbounded slots do: \<open>push\<close>, \<open>pop\<close>, \<open>update\<close> and
  \<open>pop_key\<close> each return a state, and both invariants hold in it.\<close>

theorem exact_operations_preserve_invariants:
  assumes "strict_weak_order cmp" "n \<le> length xs" "n \<le> exact_slots"
  shows
    "(0 < n \<and> heap_property cmp (n - 1) xs \<and> index_consistent (n - 1) (xs, idx) \<and>
      (\<forall>i. i < n - 1 \<longrightarrow> snd (xs ! i) \<noteq> snd (xs ! (n - 1))) \<longrightarrow>
        heap_property cmp n (fst (push cmp (int n) (xs, idx))) \<and>
        index_consistent n (push cmp (int n) (xs, idx))) \<and>
     (heap_property cmp n xs \<and> index_consistent n (xs, idx) \<longrightarrow>
        (\<exists>s'. pop cmp (int n) (xs, idx) = Inr s' \<and>
           heap_property cmp (n - 1) (fst s') \<and> index_consistent (n - 1) s') \<and>
        (\<exists>b s'. update cmp (int n) key v (xs, idx) = Inr (b, s') \<and>
           heap_property cmp n (fst s') \<and> index_consistent n s') \<and>
        (\<exists>b s'. pop_key cmp (int n) key (xs, idx) = Inr (b, s') \<and>
           (if b then heap_property cmp (n - 1) (fst s') \<and> index_consistent (n - 1) s'
            else heap_property cmp n (fst s') \<and> index_consistent n s')))"
proof (intro conjI impI)
  note u = operations_preserve_invariants_unbounded [OF assms(1,2), of idx key v]
  {
    assume a: "0 < n \<and> heap_property cmp (n - 1) xs \<and> index_consistent (n - 1) (xs, idx) \<and>
      (\<forall>i. i < n - 1 \<longrightarrow> snd (xs ! i) \<noteq> snd (xs ! (n - 1)))"
    show "heap_property cmp n (fst (push cmp (int n) (xs, idx)))"
      and "index_consistent n (push cmp (int n) (xs, idx))"
      using u a by blast+
  }
  assume a: "heap_property cmp n xs \<and> index_consistent n (xs, idx)"
  have k: "idx key = - 1 \<or> (0 \<le> idx key \<and> idx key < int (length xs))"
    using index_in_storage [where idx = idx and key = key, OF _ assms(2)] a by blast
  note e = exact_int [OF assms(3)]
  show "\<exists>s'. pop cmp (int n) (xs, idx) = Inr s' \<and>
           heap_property cmp (n - 1) (fst s') \<and> index_consistent (n - 1) s'"
    using u a pop_exact [OF e, of cmp "(xs, idx)"] by blast
  have "update cmp (int n) key v (xs, idx) =
        Inr (fst (update_unbounded cmp (int n) key v (xs, idx)),
             snd (update_unbounded cmp (int n) key v (xs, idx)))"
    using update_exact [where idx = idx and key = key, OF e k, of cmp v] by simp
  then show "\<exists>b s'. update cmp (int n) key v (xs, idx) = Inr (b, s') \<and>
           heap_property cmp n (fst s') \<and> index_consistent n s'"
    using u a by blast
  have "pop_key cmp (int n) key (xs, idx) =
        Inr (fst (pop_key_unbounded cmp (int n) key (xs, idx)),
             snd (pop_key_unbounded cmp (int n) key (xs, idx)))"
    using pop_key_exact [where idx = idx and key = key, OF e k, of cmp] by simp
  then show "\<exists>b s'. pop_key cmp (int n) key (xs, idx) = Inr (b, s') \<and>
           (if b then heap_property cmp (n - 1) (fst s') \<and> index_consistent (n - 1) s'
            else heap_property cmp n (fst s') \<and> index_consistent n s')"
    using u a by blast
qed

text \<open>\<open>sort\<close> returns a state whose range is a permutation of the entries, ordered by
  dominance, with the cell of every key that was live at \<open>-1\<close>.\<close>

theorem exact_sort_orders_range_and_clears_index:
  assumes "strict_weak_order cmp" "n \<le> length xs" "n \<le> exact_slots"
    "heap_property cmp n xs" "index_consistent n (xs, idx)"
  shows
    "\<exists>s'. sort_heap cmp (int n) (xs, idx) = Inr s' \<and>
       mset (take n (fst s')) = mset (take n xs) \<and>
       length (fst s') = length xs \<and>
       (\<forall>j. n \<le> j \<longrightarrow> fst s' ! j = xs ! j) \<and>
       (\<forall>i j. i < j \<and> j < n \<longrightarrow> \<not> cmp (fst s' ! j) (fst s' ! i)) \<and>
       (\<forall>i. i < n \<longrightarrow> \<not> cmp (fst s' ! (n - 1)) (fst s' ! i)) \<and>
       (\<forall>i. i < n \<longrightarrow> snd s' (snd (xs ! i)) = - 1)"
  using sort_orders_range_and_clears_index_unbounded [OF assms(1,2,4,5)]
    sort_heap_exact [OF exact_int [OF assms(3)], of cmp "(xs, idx)"]
  by blast

text \<open>\<open>pop\<close> exchanges the root with the last entry, sets the cell of the old root's
  key to \<open>-1\<close> and sifts from the root over the range shrunk by one; it returns a state
  with the heap property over that range, none of whose entries there dominates the
  old root.\<close>

theorem exact_pop_extracts_root:
  assumes "strict_weak_order cmp" "0 < n" "n \<le> length xs" "n \<le> exact_slots"
    "heap_property cmp n xs" "index_consistent n (xs, idx)"
  shows
    "pop cmp (int n) (xs, idx) =
       bubble_down cmp (int (n - 1)) 0
         (xs[0 := xs ! (n - 1), n - 1 := xs ! 0],
          idx(snd (xs ! (n - 1)) := 0, snd (xs ! 0) := - 1)) \<and>
     (\<exists>s'. pop cmp (int n) (xs, idx) = Inr s' \<and>
        heap_property cmp (n - 1) (fst s') \<and>
        (\<forall>j. j < n - 1 \<longrightarrow> \<not> cmp (xs ! 0) (fst s' ! j)))"
proof -
  note u = pop_extracts_root_unbounded [OF assms(1,2,3,5,6)]
  note e = exact_int [OF assms(4)]
  have "int (n - 1) \<le> int exact_slots" using assms(4) by simp
  then have "bubble_down cmp (int (n - 1)) 0
         (xs[0 := xs ! (n - 1), n - 1 := xs ! 0],
          idx(snd (xs ! (n - 1)) := 0, snd (xs ! 0) := - 1)) =
        Inr (bubble_down_unbounded cmp (int (n - 1)) 0
         (xs[0 := xs ! (n - 1), n - 1 := xs ! 0],
          idx(snd (xs ! (n - 1)) := 0, snd (xs ! 0) := - 1)))"
    by (rule bubble_down_exact)
  then show ?thesis
    using u pop_exact [OF e, of cmp "(xs, idx)"] by metis
qed

text \<open>\<open>pop_key\<close> of a live key returns \<open>true\<close> and a state with both invariants over the
  range shrunk by one, which holds the old entries without the entry of the key.\<close>

theorem exact_pop_key_removes_live_key:
  assumes "strict_weak_order cmp" "n \<le> length xs" "n \<le> exact_slots" "heap_property cmp n xs"
    "index_consistent n (xs, idx)" "i < n" "snd (xs ! i) = key"
  shows
    "\<exists>s'. pop_key cmp (int n) key (xs, idx) = Inr (True, s') \<and>
       mset (take (n - 1) (fst s')) = mset (take n xs) - {#xs ! i#} \<and>
       size (mset (take (n - 1) (fst s'))) + 1 = size (mset (take n xs)) \<and>
       snd s' key = - 1 \<and>
       heap_property cmp (n - 1) (fst s') \<and>
       index_consistent (n - 1) s' \<and>
       (i = n - 1 \<longrightarrow> s' = (xs, idx(key := - 1)))"
proof -
  note u = pop_key_removes_live_key_unbounded [OF assms(1,2,4,5,6,7)]
  have k: "idx key = - 1 \<or> (0 \<le> idx key \<and> idx key < int (length xs))"
    using index_in_storage [where idx = idx and key = key, OF assms(5,2)] .
  have "pop_key cmp (int n) key (xs, idx) =
        Inr (fst (pop_key_unbounded cmp (int n) key (xs, idx)),
             snd (pop_key_unbounded cmp (int n) key (xs, idx)))"
    using pop_key_exact [where idx = idx and key = key, OF exact_int [OF assms(3)] k, of cmp]
    by simp
  then have "pop_key cmp (int n) key (xs, idx) =
        Inr (True, snd (pop_key_unbounded cmp (int n) key (xs, idx)))"
    using u by simp
  then show ?thesis using u by blast
qed

text \<open>\<open>make\<close> computes what the specification describes, the calls on the leaf slots
  changing nothing, and returns a state with the heap property over the range.\<close>

theorem exact_make_heapifies_as_specified:
  assumes "strict_weak_order cmp" "n \<le> length xs" "n \<le> exact_slots"
  shows
    "(N \<le> int exact_slots \<longrightarrow> make cmp N s = make_spec cmp N s) \<and>
     (N \<le> 0 \<longrightarrow> make cmp N s = Inr s) \<and>
     (\<exists>s'. make cmp (int n) (xs, idx) = Inr s' \<and>
        heap_property cmp n (fst s') \<and>
        mset (take n (fst s')) = mset (take n xs) \<and>
        (index_consistent n (xs, idx) \<longrightarrow> index_consistent n s'))"
proof -
  note u = make_heapifies_as_specified_unbounded [OF assms(1,2), of N s idx]
  have a: "N \<le> int exact_slots \<longrightarrow> make cmp N s = make_spec cmp N s"
    using u by (simp add: make_exact make_spec_exact)
  have b: "N \<le> 0 \<longrightarrow> make cmp N s = Inr s" by (simp add: make_def)
  show ?thesis
    using a b u make_exact [OF exact_int [OF assms(3)], of cmp "(xs, idx)"] by blast
qed

text \<open>\<open>pop\<close> on a heap keeps the extracted entry, the most dominant one, at slot \<open>n - 1\<close>
  with the cell of its key at \<open>-1\<close>; \<open>sort\<close> is this \<open>pop\<close> followed by \<open>sort\<close> over the
  remaining slots, leaves slot \<open>n - 1\<close> alone and returns the range ordered by
  dominance.\<close>

theorem exact_pop_keeps_extracted_entry:
  assumes "strict_weak_order cmp" "0 < n" "n \<le> length xs" "n \<le> exact_slots"
    "heap_property cmp n xs" "index_consistent n (xs, idx)"
  shows
    "(\<forall>j. j < n \<longrightarrow> \<not> cmp (xs ! 0) (xs ! j)) \<and>
     (\<exists>s1 s2. pop cmp (int n) (xs, idx) = Inr s1 \<and>
        fst s1 ! (n - 1) = xs ! 0 \<and>
        snd s1 (snd (xs ! 0)) = - 1 \<and>
        length (fst s1) = length xs \<and>
        mset (take (n - 1) (fst s1)) + {#xs ! 0#} = mset (take n xs) \<and>
        heap_property cmp (n - 1) (fst s1) \<and> index_consistent (n - 1) s1 \<and>
        (\<forall>j. j < n - 1 \<longrightarrow> \<not> cmp (xs ! 0) (fst s1 ! j)) \<and>
        sort_heap cmp (int n) (xs, idx) = sort_heap cmp (int (n - 1)) s1 \<and>
        sort_heap cmp (int n) (xs, idx) = Inr s2 \<and>
        fst s2 ! (n - 1) = xs ! 0 \<and>
        mset (take n (fst s2)) = mset (take n xs) \<and>
        (\<forall>i j. i < j \<and> j < n \<longrightarrow> \<not> cmp (fst s2 ! j) (fst s2 ! i)))"
proof -
  let ?s1 = "pop_unbounded cmp (int n) (xs, idx)"
  let ?s2 = "sort_heap_unbounded cmp (int n) (xs, idx)"
  note e = exact_int [OF assms(4)]
  note u = pop_keeps_extracted_entry_unbounded [OF assms(2,3,6), of cmp]
  note v = sort_orders_range_and_clears_index_unbounded [OF assms(1,3,5,6)]
  note w = pop_extracts_root_unbounded [OF assms(1,2,3,5,6)]
  have p: "pop cmp (int n) (xs, idx) = Inr ?s1" using pop_exact [OF e] .
  have q: "sort_heap cmp (int n) (xs, idx) = Inr ?s2" using sort_heap_exact [OF e] .
  have r: "sort_heap cmp (int n) (xs, idx) = sort_heap cmp (int (n - 1)) ?s1"
    using assms(2) p by (subst sort_heap.simps) simp
  have a: "\<forall>j. j < n \<longrightarrow> \<not> cmp (xs ! 0) (xs ! j)"
    using heap_root_max [OF assms(1,5)] by blast
  have i: "index_consistent (n - 1) ?s1"
    using pop_index [OF assms(2), of "(xs, idx)" cmp] assms(3,6) by simp
  have f: "same_entries n xs (fst ?s1)"
    using pop_frame [OF assms(2), of "(xs, idx)" cmp] assms(3) by simp
  have l: "n - 1 < length (fst ?s1)" using u assms(2,3) by simp
  have "take n (fst ?s1) = take (n - 1) (fst ?s1) @ [fst ?s1 ! (n - 1)]"
    using take_Suc_conv_app_nth [OF l] assms(2) by simp
  then have m: "mset (take (n - 1) (fst ?s1)) + {#xs ! 0#} = mset (take n xs)"
    using f u by (simp add: same_entries_def)
  show ?thesis
    using a p q r u v w i m by blast
qed

section \<open>The operations of the source past \<open>2^30\<close> slots\<close>

text \<open>When the sift toward the leaves stands at a slot \<open>i\<close> of the range with
  \<open>2^30 \<le> i\<close>, \<open>int c = 2 * i + 1\<close> overflows. \<open>make\<close> starts its loop at the last slot of
  the range, so it overflows on every range of more than \<open>2^30\<close> slots, whatever the
  entries are; \<open>update\<close> overflows when it lowers the priority of a key that lives at
  such a slot, and \<open>pop_key\<close> when the key lives at such a slot before the last one and
  the last entry is dominated by its entry.\<close>

lemma bubble_down_loop_overflow:
  "exact_slots \<le> i \<Longrightarrow> i < n \<Longrightarrow> bubble_down_loop cmp n i s = Inl IntOverflow"
  by (subst bubble_down_loop.simps) (simp add: exact_slots_def int_max_def)

lemma bubble_down_overflow:
  "int exact_slots \<le> it \<Longrightarrow> it < n \<Longrightarrow> bubble_down cmp n it s = Inl IntOverflow"
  by (simp add: bubble_down_def bubble_down_loop_overflow nat_le_iff nat_less_iff)

lemma make_overflow:
  "int exact_slots < n \<Longrightarrow> make cmp n s = Inl IntOverflow"
proof -
  assume n: "int exact_slots < n"
  then have "bubble_down cmp n (n - 1) s = Inl IntOverflow"
    by (intro bubble_down_overflow) simp_all
  then show ?thesis
    using n by (simp add: make_def make_loop.simps [of cmp n "n - 1"])
qed

lemma update_overflow:
  assumes "n \<le> length xs" "idx key = int i" "exact_slots \<le> i" "i < n"
    "cmp (v, snd (xs ! i)) (xs ! i)"
  shows "update cmp (int n) key v (xs, idx) = Inl IntOverflow"
proof -
  have "bubble_down cmp (int n) (int i) s = Inl IntOverflow" for s
    using assms(3,4) by (intro bubble_down_overflow) simp_all
  then show ?thesis
    using assms by (simp add: update_def Let_def)
qed

lemma pop_key_overflow:
  assumes "n \<le> length xs" "idx key = int i" "exact_slots \<le> i" "i < n - 1"
    "cmp (xs ! (n - 1)) (xs ! i)"
  shows "pop_key cmp (int n) key (xs, idx) = Inl IntOverflow"
proof -
  have "bubble_down cmp (int n - 1) (int i) s = Inl IntOverflow" for s
    using assms(3,4) by (intro bubble_down_overflow) simp_all
  moreover have "xs[i := xs ! (n - 1), n - 1 := xs ! i] ! i = xs ! (n - 1)"
    using assms(1,4) by simp
  moreover have "nat (int n - 1) = n - 1" by simp
  moreover have "i < length xs" "0 < n" using assms(1,4) by arith+
  ultimately show ?thesis
    using assms by (simp add: pop_key_def Let_def swap_entries_def split: prod.split)
qed

text \<open>In a heap the sift toward the leaves changes nothing, as long as it starts at a
  slot where \<open>2 * i + 1\<close> fits an \<open>int\<close>; so the sifts that the specification describes
  for \<open>make\<close>, those of the internal slots, leave a heap of up to \<open>INT_MAX\<close> slots as it
  is.\<close>

lemma child_scan_heap:
  assumes "heap_property cmp n xs" "n \<le> int_max" "i < n"
  shows "child_scan cmp n i xs (2 * i + 1) i = Inr i"
proof -
  have p: "\<not> cmp (xs ! i) (xs ! c)" if "c < n" "c = 2 * i + 1 \<or> c = 2 * i + 2" for c
  proof -
    have "0 < c \<and> (c - 1) div 2 = i" using that(2) by auto
    then show ?thesis using assms(1) that(1) unfolding heap_property_def by blast
  qed
  show ?thesis
    using assms(2) p [of "2 * i + 1"] p [of "2 * i + 2"]
    by (subst child_scan.simps, subst child_scan.simps, subst child_scan.simps) auto
qed

lemma bubble_down_heap_fixed:
  assumes "heap_property cmp n (fst s)" "n \<le> int_max" "2 * i + 1 \<le> int_max"
  shows "bubble_down cmp (int n) (int i) s = Inr s"
proof (cases "i < n")
  case True
  then show ?thesis
    using child_scan_heap [OF assms(1,2) True] assms(3)
    by (simp add: bubble_down_def bubble_down_loop.simps [of cmp n i])
next
  case False
  then show ?thesis by (simp add: bubble_down_def)
qed

lemma make_spec_heap_fixed:
  assumes "heap_property cmp n (fst s)" "n \<le> int_max"
  shows "make_spec cmp (int n) s = Inr s"
proof -
  have f: "fold (\<lambda>i r. case r of Inl f \<Rightarrow> Inl f | Inr s' \<Rightarrow> bubble_down cmp (int n) (int i) s')
             ks (Inr s) = Inr s" if "\<forall>i \<in> set ks. 2 * i + 1 \<le> int_max" for ks
    using that by (induction ks) (simp_all add: bubble_down_heap_fixed [OF assms])
  have "2 * i + 1 \<le> int_max" if "i \<in> set (rev (internal_slots (int n)))" for i
    using that assms(2) by (simp add: internal_slots_def)
  then show ?thesis
    using f [of "rev (internal_slots (int n))"] by (simp add: make_spec_def)
qed

subsection \<open>The heap of \<open>2^30 + 2\<close> entries\<close>

text \<open>\<open>big_xs\<close> is a heap under the default comparator, with a consistent index map.
  \<open>pop\<close> moves the entry of the last slot, the least dominant one, to the root and sifts
  it over the first \<open>2^30 + 1\<close> slots: at each slot the more dominant child is the left
  one, down to slot \<open>2^29 - 1\<close>, whose more dominant child is the right one, slot
  \<open>2^30\<close>; there the next step overflows.\<close>

lemma length_big_xs: "length big_xs = big_n"
  by (simp add: big_xs_def)

lemma big_xs_nth: "i < big_n \<Longrightarrow> big_xs ! i = (big_prio i, i)"
  by (simp add: big_xs_def)

lemma big_heap: "heap_property std_less big_n big_xs"
proof -
  have "big_prio i < big_prio ((i - 1) div 2)" if "0 < i" "i < big_n" for i
    using that by (simp add: big_prio_def big_n_def; arith)
  moreover have "(i - 1) div 2 < big_n" if "i < big_n" for i
    using that by arith
  ultimately have "\<not> std_less (big_xs ! ((i - 1) div 2)) (big_xs ! i)" if "0 < i" "i < big_n" for i
    using that by (simp add: big_xs_nth std_less_def) (meson less_asym)
  then show ?thesis
    unfolding heap_property_def by blast
qed

lemma big_index: "index_consistent big_n (big_xs, big_idx)"
proof -
  have "big_idx k = - 1" if "\<forall>i. i < big_n \<longrightarrow> snd (big_xs ! i) \<noteq> k" for k
  proof (cases "k < big_n")
    case True
    then show ?thesis using that big_xs_nth [OF True] by auto
  next
    case False
    then show ?thesis by (simp add: big_idx_def)
  qed
  then show ?thesis
    by (simp add: index_consistent_def big_xs_nth big_idx_def)
qed

lemma big_update_faults:
  "update std_less (int big_n) 1073741824 0 (big_xs, big_idx) = Inl IntOverflow"
proof -
  have "bubble_down std_less (int big_n) 1073741824 s = Inl IntOverflow" for s :: "(nat, nat) iheap"
    by (rule bubble_down_overflow) (simp_all add: exact_slots_def big_n_def)
  then show ?thesis
    by (simp add: update_def Let_def big_idx_def length_big_xs big_xs_nth big_n_def big_prio_def
        std_less_def)
qed

lemma big_pop_key_faults:
  "pop_key std_less (int big_n) 1073741824 (big_xs, big_idx) = Inl IntOverflow"
proof -
  have "bubble_down std_less (int big_n - 1) 1073741824 s = Inl IntOverflow" for s :: "(nat, nat) iheap"
    by (rule bubble_down_overflow) (simp_all add: exact_slots_def big_n_def)
  then show ?thesis
    by (simp add: pop_key_def Let_def big_idx_def length_big_xs big_xs_nth big_n_def big_prio_def
        std_less_def swap_entries_def split: prod.split)
qed

lemma big_pop_faults:
  "pop std_less (int big_n) (big_xs, big_idx) = Inl IntOverflow"
  by (simp add: pop_def bubble_down_def bubble_down_loop.simps child_scan.simps Let_def
      swap_entries_def length_big_xs big_xs_nth big_n_def big_prio_def std_less_def int_max_def
      split: prod.split)

lemma big_sort_faults:
  "sort_heap std_less (int big_n) (big_xs, big_idx) = Inl IntOverflow"
proof -
  have "0 < int big_n" by (simp add: big_n_def)
  then show ?thesis
    using big_pop_faults by (subst sort_heap.simps) simp
qed

lemma big_make_faults: "make std_less (int big_n) (big_xs, big_idx) = Inl IntOverflow"
  by (rule make_overflow) (simp add: exact_slots_def big_n_def)

lemma big_make_spec_returns:
  "make_spec std_less (int big_n) (big_xs, big_idx) = Inr (big_xs, big_idx)"
proof (rule make_spec_heap_fixed)
  show "heap_property std_less big_n (fst (big_xs, big_idx))" using big_heap by simp
  show "big_n \<le> int_max" by (simp add: big_n_def int_max_def)
qed

lemma big_valid:
  "strict_weak_order (std_less :: (nat, nat) compare) \<and> big_n \<le> length big_xs \<and>
   heap_property std_less big_n big_xs \<and> index_consistent big_n (big_xs, big_idx)"
  using std_less_swo big_heap big_index by (simp add: length_big_xs)

lemma big_key_live:
  "(1073741824::nat) < big_n \<and> snd (big_xs ! 1073741824) = 1073741824 \<and>
   big_idx 1073741824 = 1073741824"
  by (simp add: big_xs_nth big_idx_def big_n_def)

lemma big_bubble_down_faults:
  "bubble_down std_less (int big_n) 1073741824 (big_xs, big_idx) = Inl IntOverflow"
  by (rule bubble_down_overflow) (simp_all add: exact_slots_def big_n_def)



section \<open>The scenarios of the specification\<close>

text \<open>The example scenarios of the specification, run on the model with the default
  comparator; the keys \<open>a, b, c, d\<close> are \<open>0, 1, 2, 3\<close> and \<open>z\<close> is \<open>9\<close>.\<close>

lemmas run_simps = push_def pop_def make_def update_def pop_key_def bubble_up_def bubble_down_def
  bubble_up_loop.simps bubble_down_loop.simps child_scan.simps make_loop.simps sort_heap.simps
  swap_entries_def swap_cells_def std_less_def int_max_def Let_def

lemma scenario_1_pushes:
  "push std_less 4 (push std_less 3 (push std_less 2 (push std_less 1
     ([(5, 0), (3, 1), (8, 2), (1, 3)], \<lambda>k. - 1)))) = (ex_xs, ex_idx)"
  by (simp add: run_simps ex_xs_def ex_idx_def fun_eq_iff)

lemma scenario_1_third_push:
  "push std_less 3 (push std_less 2 (push std_less 1
     ([(5, 0), (3, 1), (8, 2), (1, 3)], \<lambda>k. - 1))) = (ex_xs, ex_idx3)"
  by (simp add: run_simps ex_xs_def ex_idx3_def fun_eq_iff)

lemma scenario_1_pops:
  "pop std_less 4 (ex_xs, ex_idx) =
     Inr ([(5::nat, 0::nat), (3, 1), (1, 3), (8, 2)], (\<lambda>k. - 1)(0 := 0, 1 := 1, 3 := 2)) \<and>
   pop std_less 3 ([(5::nat, 0::nat), (3, 1), (1, 3), (8, 2)], (\<lambda>k. - 1)(0 := 0, 1 := 1, 3 := 2)) =
     Inr ([(3::nat, 1::nat), (1, 3), (5, 0), (8, 2)], (\<lambda>k. - 1)(1 := 0, 3 := 1)) \<and>
   pop std_less 2 ([(3::nat, 1::nat), (1, 3), (5, 0), (8, 2)], (\<lambda>k. - 1)(1 := 0, 3 := 1)) =
     Inr ([(1::nat, 3::nat), (3, 1), (5, 0), (8, 2)], (\<lambda>k. - 1)(3 := 0)) \<and>
   pop std_less 1 ([(1::nat, 3::nat), (3, 1), (5, 0), (8, 2)], (\<lambda>k. - 1)(3 := 0)) =
     Inr ([(1::nat, 3::nat), (3, 1), (5, 0), (8, 2)], \<lambda>k. - 1)"
  by (simp add: run_simps ex_xs_def ex_idx_def fun_eq_iff)

lemma scenario_2_update:
  "update std_less 3 2 0 (ex_xs, ex_idx3) =
     Inr (True, [(5, 0), (3, 1), (0, 2), (1, 3)], ex_idx3(0 := 0, 2 := 2))"
  by (simp add: run_simps ex_xs_def ex_idx3_def fun_eq_iff)

lemma scenario_3_pop_key:
  "pop_key std_less 3 1 (ex_xs, ex_idx3) =
     Inr (True, [(8, 2), (5, 0), (3, 1), (1, 3)], ex_idx3(0 := 1, 1 := - 1))"
  by (simp add: run_simps ex_xs_def ex_idx3_def fun_eq_iff)

lemma scenario_4_update_absent:
  "update std_less 3 9 10 (ex_xs, ex_idx3) = Inr (False, ex_xs, ex_idx3)"
  by (simp add: run_simps ex_idx3_def)

lemma scenario_5_make_sort:
  "make std_less 5 (ex_unordered, ex_unordered_idx) =
     Inr ([(9::nat, 1::nat), (7, 3), (3, 2), (1, 0), (2, 4)],
          (\<lambda>k. - 1)(0 := 3, 1 := 0, 2 := 2, 3 := 1, 4 := 4)) \<and>
   sort_heap std_less 5 ([(9::nat, 1::nat), (7, 3), (3, 2), (1, 0), (2, 4)],
          (\<lambda>k. - 1)(0 := 3, 1 := 0, 2 := 2, 3 := 1, 4 := 4)) =
     Inr ([(1::nat, 0::nat), (2, 4), (3, 2), (7, 3), (9, 1)], \<lambda>k. - 1)"
  by (simp add: run_simps ex_unordered_def ex_unordered_idx_def fun_eq_iff)

text \<open>A cell that holds neither \<open>-1\<close> nor a slot of the storage: \<open>begin + index\<close> is
  dereferenced outside the storage.\<close>

lemma update_stale_cell_faults:
  "update std_less 4 2 9 (ex_xs, ex_idx(2 := - 2)) = Inl OutOfStorage \<and>
   update std_less 4 2 9 (ex_xs, ex_idx(2 := 4)) = Inl OutOfStorage \<and>
   pop_key std_less 4 2 (ex_xs, ex_idx(2 := - 2)) = Inl OutOfStorage \<and>
   pop_key std_less 4 2 (ex_xs, ex_idx(2 := 4)) = Inl OutOfStorage"
  by (simp add: update_def pop_key_def ex_xs_def)

section \<open>The claims\<close>

text \<open>
  C1. \<open>pop\<close>, \<open>update\<close> and \<open>pop_key\<close> do not keep the invariants in every heap state: they
  sift toward the leaves, and \<open>detail::bubble_down\<close> computes \<open>2 * i + 1\<close> in \<open>int\<close>, which
  overflows from slot \<open>2^30\<close> on. The heap \<open>big_xs\<close> of \<open>2^30 + 2\<close> entries has the heap
  property and index consistency under the default comparator, which is a strict weak
  order, and key \<open>2^30\<close> is live in it, at slot \<open>2^30\<close>. \<open>update\<close> of that key to the
  priority \<open>0\<close>, \<open>pop\<close>, and \<open>pop_key\<close> of that key each reach the overflow: the call has
  undefined behaviour, and there is no resulting state in which the invariants could
  hold. On ranges of at most \<open>2^30\<close> slots the operations keep both invariants
  (\<open>exact_operations_preserve_invariants\<close>), and \<open>push\<close>, which sifts toward the root
  only, keeps them on every range.
\<close>

theorem large_heap_operations_overflow:
  "strict_weak_order (std_less :: (nat, nat) compare) \<and> big_n \<le> length big_xs \<and>
   heap_property std_less big_n big_xs \<and> index_consistent big_n (big_xs, big_idx) \<and>
   (1073741824::nat) < big_n \<and> snd (big_xs ! 1073741824) = 1073741824 \<and>
   update std_less (int big_n) 1073741824 0 (big_xs, big_idx) = Inl IntOverflow \<and>
   pop std_less (int big_n) (big_xs, big_idx) = Inl IntOverflow \<and>
   pop_key std_less (int big_n) 1073741824 (big_xs, big_idx) = Inl IntOverflow"
  using big_valid big_key_live big_update_faults big_pop_faults big_pop_key_faults by blast

theorem large_heap_operations_overflow_witness:
  "update std_less (int big_n) 1073741824 0 (big_xs, big_idx) = Inl IntOverflow \<and>
   pop std_less (int big_n) (big_xs, big_idx) = Inl IntOverflow \<and>
   pop_key std_less (int big_n) 1073741824 (big_xs, big_idx) = Inl IntOverflow"
  using large_heap_operations_overflow by blast

text \<open>
  C2. \<open>sort\<close> does not order every range with both invariants: on the heap \<open>big_xs\<close> of
  \<open>2^30 + 2\<close> entries its first \<open>pop\<close> sifts the entry of the last slot from the root
  down to slot \<open>2^30\<close>, where \<open>2 * i + 1\<close> overflows \<open>int\<close>, and \<open>sort\<close> runs no further. On
  ranges of at most \<open>2^30\<close> slots \<open>sort\<close> leaves the range a permutation of its entries
  that is ordered by dominance, with every cell at \<open>-1\<close>
  (\<open>exact_sort_orders_range_and_clears_index\<close>).
\<close>

theorem large_heap_sort_overflows:
  "strict_weak_order (std_less :: (nat, nat) compare) \<and> big_n \<le> length big_xs \<and>
   heap_property std_less big_n big_xs \<and> index_consistent big_n (big_xs, big_idx) \<and>
   sort_heap std_less (int big_n) (big_xs, big_idx) = Inl IntOverflow"
  using big_valid big_sort_faults by blast

theorem large_heap_sort_overflows_witness:
  "sort_heap std_less (int big_n) (big_xs, big_idx) = Inl IntOverflow"
  using large_heap_sort_overflows by blast

text \<open>
  C3. \<open>pop\<close> does not extract the root of every non-empty heap: on the heap \<open>big_xs\<close> of
  \<open>2^30 + 2\<close> entries it exchanges the root with the last entry and sifts that entry
  from the root over \<open>2^30 + 1\<close> slots; the sift follows the more dominant children down
  to slot \<open>2^30\<close>, and the next \<open>2 * i + 1\<close> overflows \<open>int\<close>. No state is returned, so
  there is none in which the heap property holds over the shrunken range. On ranges of
  at most \<open>2^30\<close> slots \<open>pop\<close> does what the specification says (\<open>exact_pop_extracts_root\<close>).
\<close>

theorem large_heap_pop_overflows:
  "strict_weak_order (std_less :: (nat, nat) compare) \<and> 0 < big_n \<and> big_n \<le> length big_xs \<and>
   heap_property std_less big_n big_xs \<and> index_consistent big_n (big_xs, big_idx) \<and>
   pop std_less (int big_n) (big_xs, big_idx) = Inl IntOverflow"
  using big_valid big_pop_faults by (simp add: big_n_def)

theorem large_heap_pop_overflows_witness:
  "pop std_less (int big_n) (big_xs, big_idx) = Inl IntOverflow"
  using large_heap_pop_overflows by blast

text \<open>
  C4. \<open>pop_key\<close> does not remove every live key: in the heap \<open>big_xs\<close> of \<open>2^30 + 2\<close>
  entries key \<open>2^30\<close> is live at slot \<open>2^30\<close>, and the last entry, at slot \<open>2^30 + 1\<close>, is
  dominated by its entry. \<open>pop_key\<close> of that key exchanges the two entries and calls the
  sift toward the leaves at slot \<open>2^30\<close> over the first \<open>2^30 + 1\<close> slots, where
  \<open>2 * i + 1\<close> overflows \<open>int\<close>: it returns neither \<open>true\<close> nor a state. On ranges of at
  most \<open>2^30\<close> slots \<open>pop_key\<close> does what the specification says
  (\<open>exact_pop_key_removes_live_key\<close>).
\<close>

theorem large_heap_pop_key_overflows:
  "strict_weak_order (std_less :: (nat, nat) compare) \<and> big_n \<le> length big_xs \<and>
   heap_property std_less big_n big_xs \<and> index_consistent big_n (big_xs, big_idx) \<and>
   (1073741824::nat) < big_n \<and> snd (big_xs ! 1073741824) = 1073741824 \<and>
   pop_key std_less (int big_n) 1073741824 (big_xs, big_idx) = Inl IntOverflow"
  using big_valid big_key_live big_pop_key_faults by blast

theorem large_heap_pop_key_overflows_witness:
  "pop_key std_less (int big_n) 1073741824 (big_xs, big_idx) = Inl IntOverflow"
  using large_heap_pop_key_overflows by blast

text \<open>
  C5. On an empty or inverted range (\<open>n = end - begin \<le> 0\<close>), \<open>push\<close>, \<open>pop\<close>, \<open>make\<close> and
  \<open>sort\<close> return the sequence and the index map unchanged, and \<open>update\<close> and \<open>pop_key\<close>
  return \<open>false\<close> and change nothing; \<open>update\<close> and \<open>pop_key\<close> also return \<open>false\<close> and
  change nothing whenever the cell of the given key holds the absent value \<open>-1\<close>. Each of
  these calls returns: its result is a state, not a fault.
\<close>

theorem degenerate_calls_change_nothing:
  "(n \<le> 0 \<longrightarrow>
      push cmp n s = s \<and> pop cmp n s = Inr s \<and> make cmp n s = Inr s \<and>
      sort_heap cmp n s = Inr s \<and>
      update cmp n key v s = Inr (False, s) \<and> pop_key cmp n key s = Inr (False, s)) \<and>
   (snd s key = - 1 \<longrightarrow>
      update cmp n key v s = Inr (False, s) \<and> pop_key cmp n key s = Inr (False, s))"
  by (cases s)
    (simp add: push_def pop_def make_def sort_heap_source_stop update_def pop_key_def)

theorem degenerate_calls_change_nothing_witness:
  "(- 1 :: int) \<le> 0 \<and> push std_less (- 1) (ex_xs, ex_idx) = (ex_xs, ex_idx) \<and>
   pop std_less (- 1) (ex_xs, ex_idx) = Inr (ex_xs, ex_idx) \<and>
   make std_less (- 1) (ex_xs, ex_idx) = Inr (ex_xs, ex_idx) \<and>
   sort_heap std_less (- 1) (ex_xs, ex_idx) = Inr (ex_xs, ex_idx) \<and>
   update std_less (- 1) 2 9 (ex_xs, ex_idx) = Inr (False, ex_xs, ex_idx) \<and>
   pop_key std_less (- 1) 2 (ex_xs, ex_idx) = Inr (False, ex_xs, ex_idx) \<and>
   snd (ex_xs, ex_idx) 7 = - 1 \<and>
   update std_less 4 7 9 (ex_xs, ex_idx) = Inr (False, ex_xs, ex_idx) \<and>
   pop_key std_less 4 7 (ex_xs, ex_idx) = Inr (False, ex_xs, ex_idx)"
proof -
  have a: "(- 1 :: int) \<le> 0" by simp
  have b: "snd (ex_xs, ex_idx) 7 = - 1" by (simp add: ex_idx_def)
  show ?thesis
    using a b
      degenerate_calls_change_nothing [of "- 1" std_less "(ex_xs, ex_idx)" 2 9]
      degenerate_calls_change_nothing [of 4 std_less "(ex_xs, ex_idx)" 7 9]
    by simp
qed

text \<open>
  C6, as the specification states it, fails: \<open>push\<close> appends nothing. It takes no entry;
  it reads the entry that the caller has stored in the last slot of the range. Here the
  heap is the single entry \<open>(5, 0)\<close>, the caller has stored \<open>(3, 1)\<close> in slot \<open>1\<close> and
  calls \<open>push\<close> on the range of two slots: the storage is left exactly as it was, slot
  \<open>2\<close> past the range included, and only the cell of key \<open>1\<close> is written. Nor do the
  heap property over the prior entries and a key that is not live give index consistency
  afterwards: \<open>push\<close> writes one cell, so a stale cell of a prior key stays stale.
\<close>

theorem push_stores_no_entry:
  "fst (push std_less 2 (ex_push_xs, ex_push_idx)) = ex_push_xs \<and>
   length (fst (push std_less 2 (ex_push_xs, ex_push_idx))) = length ex_push_xs \<and>
   snd (push std_less 2 (ex_push_xs, ex_push_idx)) = ex_push_idx(1 := 1) \<and>
   heap_property std_less 1 ex_push_xs \<and>
   snd (ex_push_xs ! 0) \<noteq> snd (ex_push_xs ! 1) \<and> ex_push_stale_idx (snd (ex_push_xs ! 1)) = - 1 \<and>
   \<not> index_consistent 2 (push std_less 2 (ex_push_xs, ex_push_stale_idx))"
proof -
  have a: "push std_less 2 (ex_push_xs, ex_push_idx) = (ex_push_xs, ex_push_idx(1 := 1))"
    by (simp add: push_def bubble_up_def bubble_up_loop.simps ex_push_xs_def std_less_def)
  have b: "push std_less 2 (ex_push_xs, ex_push_stale_idx) =
           (ex_push_xs, ex_push_stale_idx(1 := 1))"
    by (simp add: push_def bubble_up_def bubble_up_loop.simps ex_push_xs_def std_less_def)
  have "(ex_push_stale_idx(1 := 1)) (snd (ex_push_xs ! 0)) \<noteq> int 0"
    by (simp add: ex_push_xs_def ex_push_stale_idx_def)
  then have c: "\<not> index_consistent 2 (push std_less 2 (ex_push_xs, ex_push_stale_idx))"
    unfolding b index_consistent_def by (metis fst_conv snd_conv zero_less_numeral)
  have d: "heap_property std_less 1 ex_push_xs" by (simp add: heap_property_def)
  have e: "snd (ex_push_xs ! 0) \<noteq> snd (ex_push_xs ! 1)"
    "ex_push_stale_idx (snd (ex_push_xs ! 1)) = - 1"
    by (simp_all add: ex_push_xs_def ex_push_stale_idx_def)
  show ?thesis using a c d e by simp
qed

text \<open>
  C6, amended. \<open>push\<close> is called on a range of \<open>n\<close> slots whose last slot already holds
  the new entry, stored there by the caller. It sets the cell of that entry's key to
  \<open>n - 1\<close> and sifts the entry toward the root. For a strict weak order, when the heap
  property and index consistency held over the first \<open>n - 1\<close> slots and none of them
  holds the new key, both hold over the \<open>n\<close> slots afterwards; the range holds the same
  entries as before the call, and the rest of the storage is untouched.
\<close>

theorem push_indexes_and_sifts_last_entry:
  assumes "strict_weak_order cmp" "0 < n" "n \<le> length xs"
    "heap_property cmp (n - 1) xs" "index_consistent (n - 1) (xs, idx)"
    "\<forall>i. i < n - 1 \<longrightarrow> snd (xs ! i) \<noteq> snd (xs ! (n - 1))"
  shows
    "push cmp (int n) (xs, idx) =
       bubble_up cmp (int n) (int (n - 1)) (xs, idx(snd (xs ! (n - 1)) := int (n - 1))) \<and>
     heap_property cmp n (fst (push cmp (int n) (xs, idx))) \<and>
     index_consistent n (push cmp (int n) (xs, idx)) \<and>
     length (fst (push cmp (int n) (xs, idx))) = length xs \<and>
     mset (take n (fst (push cmp (int n) (xs, idx)))) = mset (take n xs) \<and>
     (\<forall>j. n \<le> j \<longrightarrow> fst (push cmp (int n) (xs, idx)) ! j = xs ! j)"
proof -
  have a: "push cmp (int n) (xs, idx) =
       bubble_up cmp (int n) (int (n - 1)) (xs, idx(snd (xs ! (n - 1)) := int (n - 1)))"
    using push_unfold [OF assms(2)] .
  have b: "heap_property cmp n (fst (push cmp (int n) (xs, idx)))"
    using push_heap [OF assms(1,2,3,4)] .
  have c: "index_consistent n (push cmp (int n) (xs, idx))"
    using push_index [OF assms(2,3,5,6)] .
  have "same_entries n xs (fst (push cmp (int n) (xs, idx)))"
    using push_frame [OF assms(2,3)] .
  then have d: "length (fst (push cmp (int n) (xs, idx))) = length xs"
    "mset (take n (fst (push cmp (int n) (xs, idx)))) = mset (take n xs)"
    "\<forall>j. n \<le> j \<longrightarrow> fst (push cmp (int n) (xs, idx)) ! j = xs ! j"
    by (simp_all add: same_entries_def)
  show ?thesis using a b c d by blast
qed

theorem push_indexes_and_sifts_last_entry_witness:
  "strict_weak_order (std_less :: (nat, nat) compare) \<and> (0::nat) < 4 \<and> 4 \<le> length ex_xs \<and>
   heap_property std_less 3 ex_xs \<and> index_consistent 3 (ex_xs, ex_idx3) \<and>
   snd (ex_xs ! 0) \<noteq> snd (ex_xs ! 3) \<and> snd (ex_xs ! 1) \<noteq> snd (ex_xs ! 3) \<and>
   snd (ex_xs ! 2) \<noteq> snd (ex_xs ! 3) \<and>
   push std_less 4 (ex_xs, ex_idx3) =
     bubble_up std_less 4 3 (ex_xs, ex_idx3(snd (ex_xs ! 3) := 3)) \<and>
   heap_property std_less 4 (fst (push std_less 4 (ex_xs, ex_idx3))) \<and>
   index_consistent 4 (push std_less 4 (ex_xs, ex_idx3)) \<and>
   length (fst (push std_less 4 (ex_xs, ex_idx3))) = length ex_xs \<and>
   mset (take 4 (fst (push std_less 4 (ex_xs, ex_idx3)))) = mset (take 4 ex_xs)"
proof -
  have l: "(4::nat) \<le> length ex_xs" by (simp add: ex_xs_def)
  have n: "(0::nat) < 4" "(4::nat) - 1 = 3" by simp_all
  have f: "snd (ex_xs ! 0) \<noteq> snd (ex_xs ! 3)" "snd (ex_xs ! 1) \<noteq> snd (ex_xs ! 3)"
    "snd (ex_xs ! 2) \<noteq> snd (ex_xs ! 3)" by (simp_all add: ex_xs_def)
  then have f': "\<forall>i. i < (4::nat) - 1 \<longrightarrow> snd (ex_xs ! i) \<noteq> snd (ex_xs ! (4 - 1))"
    unfolding n by (simp only: all_less_3) simp
  have h: "heap_property std_less (4 - 1) ex_xs" "index_consistent (4 - 1) (ex_xs, ex_idx3)"
    unfolding n using ex_heap3 ex_index3 by simp_all
  note r = push_indexes_and_sifts_last_entry [OF std_less_swo n(1) l h f',
      unfolded n of_nat_numeral]
  show ?thesis
    using std_less_swo n(1) l ex_heap3 ex_index3 f r by blast
qed

text \<open>
  C7. \<open>make\<close> does not heapify every range: its loop starts at the last slot of the
  range, not at the last internal slot, and on a range of more than \<open>2^30\<close> slots the
  first call of the sift toward the leaves stands at a leaf \<open>i\<close> with \<open>2^30 \<le> i\<close>, where
  \<open>int c = 2 * i + 1\<close> overflows. On the range of the \<open>2^30 + 2\<close> entries of \<open>big_xs\<close>, which
  lies inside the storage and has a consistent index map, \<open>make\<close> overflows in that
  first call, at slot \<open>2^30 + 1\<close>, and returns no state; the sifts that the
  specification describes, those of the internal slots, all return there and leave
  the entries, which form a heap already, as they are. On ranges of at most \<open>2^30\<close> slots
  \<open>make\<close> computes what the specification describes, and the heap property holds
  afterwards (\<open>exact_make_heapifies_as_specified\<close>).
\<close>

theorem large_range_make_overflows:
  "strict_weak_order (std_less :: (nat, nat) compare) \<and> big_n \<le> length big_xs \<and>
   index_consistent big_n (big_xs, big_idx) \<and>
   make std_less (int big_n) (big_xs, big_idx) = Inl IntOverflow \<and>
   bubble_down std_less (int big_n) (int (big_n - 1)) (big_xs, big_idx) = Inl IntOverflow \<and>
   make_spec std_less (int big_n) (big_xs, big_idx) = Inr (big_xs, big_idx)"
proof -
  have "bubble_down std_less (int big_n) (int (big_n - 1)) (big_xs, big_idx) = Inl IntOverflow"
    by (rule bubble_down_overflow) (simp_all add: exact_slots_def big_n_def)
  then show ?thesis
    using big_valid big_make_faults big_make_spec_returns by blast
qed

theorem large_range_make_overflows_witness:
  "make std_less (int big_n) (big_xs, big_idx) = Inl IntOverflow \<and>
   make_spec std_less (int big_n) (big_xs, big_idx) = Inr (big_xs, big_idx)"
  using large_range_make_overflows by blast

text \<open>
  C8. With an irreflexive comparator, in a state with index consistency where key \<open>key\<close>
  is live at slot \<open>i\<close> with the stored priority \<open>v\<close>, \<open>update(key, v)\<close> returns \<open>true\<close>
  and leaves the sequence and the index map as they were. The slot of a live key of a
  range inside the storage is a slot of the storage, \<open>i < length xs\<close>; were it not, the
  source would dereference \<open>begin + i\<close> outside the storage.
\<close>

theorem update_same_value_unchanged:
  assumes "irreflexive cmp" "index_consistent n (xs, idx)" "i < n" "xs ! i = (v, key)"
  shows "update cmp (int n) key v (xs, idx) =
           (if i < length xs then Inr (True, (xs, idx)) else Inl OutOfStorage)"
proof (cases "i < length xs")
  case True
  have k: "idx key = int i"
    using live_slot [OF assms(2,3)] assms(4) by simp
  have "(v, snd (xs ! i)) = xs ! i" using assms(4) by simp
  then have "xs[i := (v, snd (xs ! i))] = xs"
    by (simp only: list_update_id)
  moreover have "\<not> cmp (xs ! i) (xs ! i)"
    using assms(1) unfolding irreflexive_def by blast
  ultimately show ?thesis
    using update_source_unfold [where idx = idx and key = key and n = n and cmp = cmp and v = v,
        OF _ k True] assms(3) True
    by simp
next
  case False
  have k: "idx key = int i"
    using live_slot [OF assms(2,3)] assms(4) by simp
  show ?thesis
    using update_source_outside [where idx = idx and key = key and n = n and cmp = cmp and v = v,
        OF _ k] assms(3) False
    by simp
qed

theorem update_same_value_unchanged_witness:
  "irreflexive (std_less :: (nat, nat) compare) \<and> index_consistent 4 (ex_xs, ex_idx) \<and>
   (2::nat) < 4 \<and> ex_xs ! 2 = (5, 0) \<and> 2 < length ex_xs \<and>
   update std_less 4 0 5 (ex_xs, ex_idx) = Inr (True, (ex_xs, ex_idx))"
proof -
  have a: "irreflexive (std_less :: (nat, nat) compare)"
    by (simp add: irreflexive_def std_less_def)
  have b: "(2::nat) < 4" by simp
  have c: "ex_xs ! 2 = (5, 0)" by (simp add: ex_xs_def)
  have d: "2 < length ex_xs" by (simp add: ex_xs_def)
  show ?thesis
    using a ex_index b c d update_same_value_unchanged [OF a ex_index b c] by simp
qed

text \<open>
  C9. Not every operation returns on every input. Each loop of the source terminates:
  the loops are total recursive functions, a step of the sift toward the root going to
  a smaller slot and a step of the sift toward the leaves to a larger slot of the
  range. But a call can leave defined behaviour before its loops end: on the range
  of the \<open>2^30 + 2\<close> entries of \<open>big_xs\<close> the sift toward the leaves called at slot \<open>2^30\<close>
  overflows \<open>int\<close> in \<open>2 * i + 1\<close>, and so do \<open>pop\<close>, \<open>make\<close>, \<open>sort\<close>, \<open>update\<close> and
  \<open>pop_key\<close>; none of them runs to completion. \<open>push\<close> returns on every range, and on
  ranges of at most \<open>2^30\<close> slots every operation does, when the cell of the key given
  to \<open>update\<close> or \<open>pop_key\<close> holds \<open>-1\<close> or a slot of the storage
  (\<open>exact_operations_return\<close>). A cell that holds neither is the index map of no heap;
  \<open>update\<close> and \<open>pop_key\<close> then dereference \<open>begin + index\<close> outside the storage
  (\<open>update_stale_cell_faults\<close>).
\<close>

theorem large_range_operations_do_not_return:
  "strict_weak_order (std_less :: (nat, nat) compare) \<and> big_n \<le> length big_xs \<and>
   heap_property std_less big_n big_xs \<and> index_consistent big_n (big_xs, big_idx) \<and>
   bubble_down std_less (int big_n) 1073741824 (big_xs, big_idx) = Inl IntOverflow \<and>
   pop std_less (int big_n) (big_xs, big_idx) = Inl IntOverflow \<and>
   make std_less (int big_n) (big_xs, big_idx) = Inl IntOverflow \<and>
   sort_heap std_less (int big_n) (big_xs, big_idx) = Inl IntOverflow \<and>
   update std_less (int big_n) 1073741824 0 (big_xs, big_idx) = Inl IntOverflow \<and>
   pop_key std_less (int big_n) 1073741824 (big_xs, big_idx) = Inl IntOverflow"
  using big_valid big_bubble_down_faults big_pop_faults big_make_faults big_sort_faults
    big_update_faults big_pop_key_faults by blast

theorem large_range_operations_do_not_return_witness:
  "bubble_down std_less (int big_n) 1073741824 (big_xs, big_idx) = Inl IntOverflow \<and>
   make std_less (int big_n) (big_xs, big_idx) = Inl IntOverflow"
  using large_range_operations_do_not_return by blast



end
